theory Spec2Isabelle
  imports Complex_Main
begin

section \<open>Spectral-index formula compiler (feature\_extractor.py)\<close>

text \<open>
  The module compiles a formula string such as \<open>I(B08,B04)\<close> into a list of closures, one per
  semicolon-separated term, and applies them to one band-value vector.

  Strings are lists of characters; a \<^typ>\<open>char\<close> stands for one code point in the range
  0 to 255, and the character predicates below are Python's on that range. Exceptions are
  values of the type \<open>error\<close>; every function that can raise returns \<open>error + 'a\<close>, with
  \<open>Inl\<close> carrying the exception. The lexer is a list that the parser mutates by removing its
  first element, so every parsing function takes the list and returns what is left of it;
  its method \<open>next\<close> is \<open>lexer_next\<close> here.

  The elements of a vector are Python's own numbers, with exact arithmetic: \<open>+\<close> and \<open>-\<close>
  always return, and \<open>/\<close> raises \<open>ZeroDivisionError\<close> on a zero divisor. Rounding is not
  modelled, and neither are the elements of a NumPy array, for which \<open>/\<close> returns an
  infinity or a NaN instead of raising. The interpreter's bound on the depth of recursion
  is not modelled either: a formula nested beyond it makes Python raise \<open>RecursionError\<close>,
  which the model does not have.
\<close>

subsection \<open>Exceptions and character predicates\<close>

datatype error =
    IndexError
  | KeyError char
  | SyntaxError char char
  | ValueError char
  | ZeroDivisionError

text \<open>
  \<open>SyntaxError expected actual\<close> is the exception of \<open>ensure_follows\<close>, whose message holds
  both characters. \<open>KeyError ch\<close> is the failed dictionary lookup of \<open>parse_T\<close>,
  \<open>ValueError ch\<close> the failed \<open>int(ch)\<close>, and \<open>IndexError\<close> a list index out of range: in the
  lexer (\<open>self[0]\<close> on the empty list) or in an evaluator (\<open>x[i]\<close>).
  \<open>ZeroDivisionError\<close> is raised by \<open>/\<close> in an evaluator.
\<close>

definition isspace :: "char \<Rightarrow> bool" where
  "isspace c \<longleftrightarrow> c \<in> {CHR 0x09, CHR 0x0A, CHR 0x0B, CHR 0x0C, CHR 0x0D, CHR 0x1C, CHR 0x1D,
                     CHR 0x1E, CHR 0x1F, CHR 0x20, CHR 0x85, CHR 0xA0}"

definition isdigit :: "char \<Rightarrow> bool" where
  "isdigit c \<longleftrightarrow> c \<in> set ''0123456789'' \<or> c \<in> {CHR 0xB2, CHR 0xB3, CHR 0xB9}"

text \<open>\<open>nxt.lower() == 'a'\<close>: only the two letters lower-case to \<open>a\<close>.\<close>

definition lower_is_a :: "char \<Rightarrow> bool" where
  "lower_is_a c \<longleftrightarrow> c = CHR ''a'' \<or> c = CHR ''A''"

text \<open>
  \<open>int(ch)\<close> on a one-character string: the ten decimal digits convert, every other
  character raises (the superscript digits, for which \<open>isdigit\<close> holds, included).
\<close>

definition py_int :: "char \<Rightarrow> error + int" where
  "py_int c =
     (case map_of (zip ''0123456789'' [0, 1, 2, 3, 4, 5, 6, 7, 8, 9]) c of
        None \<Rightarrow> Inl (ValueError c)
      | Some n \<Rightarrow> Inr n)"

subsection \<open>Band-value vectors and evaluators\<close>

text \<open>
  \<open>x[i]\<close> on a sequence: a negative index counts from the end, and an index outside
  \<open>-len(x) .. len(x) - 1\<close> raises. The elements are of any type with a zero and the three
  arithmetic operations the closures use.
\<close>

definition getitem :: "'a list \<Rightarrow> int \<Rightarrow> error + 'a" where
  "getitem x i =
     (if 0 \<le> i \<and> i < int (length x) then Inr (x ! nat i)
      else if - int (length x) \<le> i \<and> i < 0 then Inr (x ! nat (int (length x) + i))
      else Inl IndexError)"

type_synonym 'a evaluator = "'a list \<Rightarrow> error + 'a"

subsection \<open>Lexer\<close>

fun skip_whitespace :: "char list \<Rightarrow> error + char list" where
  "skip_whitespace [] = Inl IndexError"
| "skip_whitespace (c # cs) = (if isspace c then skip_whitespace cs else Inr (c # cs))"

fun popleft :: "char list \<Rightarrow> error + (char \<times> char list)" where
  "popleft [] = Inl IndexError"
| "popleft (c # cs) = Inr (c, cs)"

definition lexer_next :: "char list \<Rightarrow> error + (char \<times> char list)" where
  "lexer_next lexer =
     (case skip_whitespace lexer of Inl e \<Rightarrow> Inl e | Inr lexer1 \<Rightarrow> popleft lexer1)"

definition peek :: "char list \<Rightarrow> error + (char \<times> char list)" where
  "peek lexer =
     (case skip_whitespace lexer of Inl e \<Rightarrow> Inl e
      | Inr lexer1 \<Rightarrow> (case lexer1 of [] \<Rightarrow> Inl IndexError | c # cs \<Rightarrow> Inr (c, lexer1)))"

subsection \<open>Parser\<close>

definition ensure_follows :: "char list \<Rightarrow> char \<Rightarrow> error + char list" where
  "ensure_follows lexer expected_ch =
     (case lexer_next lexer of Inl e \<Rightarrow> Inl e
      | Inr (ch, lexer1) \<Rightarrow>
          if ch \<noteq> expected_ch then Inl (SyntaxError expected_ch ch) else Inr lexer1)"

text \<open>
  The operator \<open>/\<close> on two numbers: Python raises on a zero divisor.
\<close>

definition truediv :: "('a::{zero,inverse}) \<Rightarrow> 'a \<Rightarrow> error + 'a" where
  "truediv a b = (if b = 0 then Inl ZeroDivisionError else Inr (a / b))"

text \<open>The closures that the productions return, named after the source where it names them.\<close>

definition index_fun :: "('a::{zero,plus,minus,inverse}) evaluator \<Rightarrow> 'a evaluator \<Rightarrow> 'a evaluator" where
  "index_fun val_fst val_snd = (\<lambda>x.
     case val_fst x of Inl e \<Rightarrow> Inl e
     | Inr v1 \<Rightarrow> (case val_snd x of Inl e \<Rightarrow> Inl e
        | Inr v2 \<Rightarrow> truediv (v1 - v2) (v1 + v2)))"

definition diff_fun :: "('a::{zero,plus,minus,inverse}) evaluator \<Rightarrow> 'a evaluator \<Rightarrow> 'a evaluator" where
  "diff_fun val_fst val_snd = (\<lambda>x.
     case val_fst x of Inl e \<Rightarrow> Inl e
     | Inr v1 \<Rightarrow> (case val_snd x of Inl e \<Rightarrow> Inl e | Inr v2 \<Rightarrow> Inr (v1 - v2)))"

definition ratio_fun :: "('a::{zero,plus,minus,inverse}) evaluator \<Rightarrow> 'a evaluator \<Rightarrow> 'a evaluator" where
  "ratio_fun val_fst val_snd = (\<lambda>x.
     case val_fst x of Inl e \<Rightarrow> Inl e
     | Inr v1 \<Rightarrow> (case val_snd x of Inl e \<Rightarrow> Inl e | Inr v2 \<Rightarrow> truediv v1 v2))"

definition sum_over_fun ::
  "('a::{zero,plus,minus,inverse}) evaluator \<Rightarrow> 'a evaluator \<Rightarrow> 'a evaluator \<Rightarrow> 'a evaluator" where
  "sum_over_fun val_fst val_snd val_thd = (\<lambda>x.
     case val_fst x of Inl e \<Rightarrow> Inl e
     | Inr v1 \<Rightarrow> (case val_snd x of Inl e \<Rightarrow> Inl e
        | Inr v2 \<Rightarrow> (case val_thd x of Inl e \<Rightarrow> Inl e | Inr v3 \<Rightarrow> truediv (v1 + v2) v3)))"

text \<open>
  The three closures of \<open>parse_B\<close>. In the two-digit one \<open>int(num)\<close> and \<open>int(nxt)\<close> are
  evaluated when the closure is called, not when it is built.
\<close>

definition two_digit_fun :: "char \<Rightarrow> char \<Rightarrow> 'a evaluator" where
  "two_digit_fun num nxt = (\<lambda>x.
     case py_int num of Inl e \<Rightarrow> Inl e
     | Inr a \<Rightarrow> (case py_int nxt of Inl e \<Rightarrow> Inl e | Inr b \<Rightarrow> getitem x (10 * a + b)))"

definition band_8a_fun :: "'a evaluator" where
  "band_8a_fun = (\<lambda>x. getitem x 8)"

definition one_digit_fun :: "int \<Rightarrow> 'a evaluator" where
  "one_digit_fun nr = (\<lambda>x. getitem x (if nr < 8 then nr else nr + 1))"

definition parse_B :: "char list \<Rightarrow> error + ('a evaluator \<times> char list)" where
  "parse_B lexer =
     (case lexer_next lexer of Inl e \<Rightarrow> Inl e
      | Inr (num, lexer1) \<Rightarrow>
         (case peek lexer1 of Inl e \<Rightarrow> Inl e
          | Inr (nxt, lexer2) \<Rightarrow>
             if isdigit nxt then
               (case popleft lexer2 of Inl e \<Rightarrow> Inl e
                | Inr (_, lexer3) \<Rightarrow> Inr (two_digit_fun num nxt, lexer3))
             else if lower_is_a nxt then
               (case popleft lexer2 of Inl e \<Rightarrow> Inl e
                | Inr (_, lexer3) \<Rightarrow> Inr (band_8a_fun, lexer3))
             else
               (case py_int num of Inl e \<Rightarrow> Inl e
                | Inr n \<Rightarrow> Inr (one_digit_fun (n - 1), lexer2))))"

function parse_T :: "char list \<Rightarrow> error + (('a::{zero,plus,minus,inverse}) evaluator \<times> char list)"
  and parse_I :: "char list \<Rightarrow> error + ('a evaluator \<times> char list)"
  and parse_S :: "char list \<Rightarrow> error + ('a evaluator \<times> char list)"
  and parse_R :: "char list \<Rightarrow> error + ('a evaluator \<times> char list)"
  and parse_D :: "char list \<Rightarrow> error + ('a evaluator \<times> char list)"
where
  "parse_T lexer =
     (case lexer_next lexer of Inl e \<Rightarrow> Inl e
      | Inr (ch, lexer1) \<Rightarrow>
          if ch = CHR ''I'' then parse_I lexer1
          else if ch = CHR ''S'' then parse_S lexer1
          else if ch = CHR ''R'' then parse_R lexer1
          else if ch = CHR ''D'' then parse_D lexer1
          else if ch = CHR ''B'' then parse_B lexer1
          else Inl (KeyError ch))"
| "parse_I lexer =
     (case ensure_follows lexer CHR ''('' of Inl e \<Rightarrow> Inl e
      | Inr lexer1 \<Rightarrow>
     (case parse_T lexer1 of Inl e \<Rightarrow> Inl e
      | Inr (val_fst, lexer2) \<Rightarrow>
     (case ensure_follows lexer2 CHR '','' of Inl e \<Rightarrow> Inl e
      | Inr lexer3 \<Rightarrow>
     (case parse_T lexer3 of Inl e \<Rightarrow> Inl e
      | Inr (val_snd, lexer4) \<Rightarrow>
     (case ensure_follows lexer4 CHR '')'' of Inl e \<Rightarrow> Inl e
      | Inr lexer5 \<Rightarrow> Inr (index_fun val_fst val_snd, lexer5))))))"
| "parse_S lexer =
     (case ensure_follows lexer CHR ''('' of Inl e \<Rightarrow> Inl e
      | Inr lexer1 \<Rightarrow>
     (case parse_T lexer1 of Inl e \<Rightarrow> Inl e
      | Inr (val_fst, lexer2) \<Rightarrow>
     (case ensure_follows lexer2 CHR '','' of Inl e \<Rightarrow> Inl e
      | Inr lexer3 \<Rightarrow>
     (case parse_T lexer3 of Inl e \<Rightarrow> Inl e
      | Inr (val_snd, lexer4) \<Rightarrow>
     (case ensure_follows lexer4 CHR '')'' of Inl e \<Rightarrow> Inl e
      | Inr lexer5 \<Rightarrow> Inr (diff_fun val_fst val_snd, lexer5))))))"
| "parse_R lexer =
     (case ensure_follows lexer CHR ''('' of Inl e \<Rightarrow> Inl e
      | Inr lexer1 \<Rightarrow>
     (case parse_T lexer1 of Inl e \<Rightarrow> Inl e
      | Inr (val_fst, lexer2) \<Rightarrow>
     (case ensure_follows lexer2 CHR '','' of Inl e \<Rightarrow> Inl e
      | Inr lexer3 \<Rightarrow>
     (case parse_T lexer3 of Inl e \<Rightarrow> Inl e
      | Inr (val_snd, lexer4) \<Rightarrow>
     (case ensure_follows lexer4 CHR '')'' of Inl e \<Rightarrow> Inl e
      | Inr lexer5 \<Rightarrow> Inr (ratio_fun val_fst val_snd, lexer5))))))"
| "parse_D lexer =
     (case ensure_follows lexer CHR ''('' of Inl e \<Rightarrow> Inl e
      | Inr lexer1 \<Rightarrow>
     (case parse_T lexer1 of Inl e \<Rightarrow> Inl e
      | Inr (val_fst, lexer2) \<Rightarrow>
     (case ensure_follows lexer2 CHR '','' of Inl e \<Rightarrow> Inl e
      | Inr lexer3 \<Rightarrow>
     (case parse_T lexer3 of Inl e \<Rightarrow> Inl e
      | Inr (val_snd, lexer4) \<Rightarrow>
     (case ensure_follows lexer4 CHR '','' of Inl e \<Rightarrow> Inl e
      | Inr lexer5 \<Rightarrow>
     (case parse_T lexer5 of Inl e \<Rightarrow> Inl e
      | Inr (val_thd, lexer6) \<Rightarrow>
     (case ensure_follows lexer6 CHR '')'' of Inl e \<Rightarrow> Inl e
      | Inr lexer7 \<Rightarrow> Inr (sum_over_fun val_fst val_snd val_thd, lexer7))))))))"
  by pat_completeness auto

text \<open>
  Termination. Every call of the lexer's \<open>next\<close> removes a character, so each production
  returns a list shorter than the one it received; the nested calls of \<open>parse_T\<close> are on
  what an earlier call returned, which is why the bound is proved alongside.
\<close>

lemma skip_whitespace_length: "skip_whitespace l = Inr r \<Longrightarrow> length r \<le> length l"
  by (induction l) (auto split: if_splits)

lemma lexer_next_length: "lexer_next l = Inr (c, r) \<Longrightarrow> length r < length l"
  unfolding lexer_next_def
  by (cases "skip_whitespace l"; cases "projr (skip_whitespace l)")
     (auto dest: skip_whitespace_length)

lemma peek_length: "peek l = Inr (c, r) \<Longrightarrow> length r \<le> length l \<and> r \<noteq> []"
  unfolding peek_def
  by (auto split: sum.splits list.splits dest: skip_whitespace_length)

lemma ensure_follows_length: "ensure_follows l c = Inr r \<Longrightarrow> length r < length l"
  unfolding ensure_follows_def
  by (auto split: sum.splits if_splits dest: lexer_next_length)

lemma popleft_length: "popleft l = Inr (c, r) \<Longrightarrow> length r < length l"
  by (cases l) auto

lemma parse_B_length: "parse_B l = Inr (f, r) \<Longrightarrow> length r < length l"
  unfolding parse_B_def
  by (fastforce split: sum.splits if_splits prod.splits
      dest: lexer_next_length peek_length popleft_length)

lemma binary_length:
  assumes "ensure_follows l c1 = Inr l1" and "pT l1 = Inr (a, l2)"
    and "ensure_follows l2 c2 = Inr l3" and "pT l3 = Inr (b, l4)"
    and "ensure_follows l4 c3 = Inr r"
    and "\<forall>f r. pT l1 = Inr (f, r) \<longrightarrow> length r < length l1"
    and "\<forall>f r. pT l3 = Inr (f, r) \<longrightarrow> length r < length l3"
  shows "length r < length l"
proof -
  have "length l1 < length l" "length l3 < length l2" "length r < length l4"
    using assms(1,3,5) by (auto dest: ensure_follows_length)
  moreover have "length l2 < length l1" "length l4 < length l3"
    using assms(2,4,6,7) by auto
  ultimately show ?thesis by linarith
qed

lemma parse_partial_length:
  "parse_T_parse_I_parse_S_parse_R_parse_D_dom TYPE('a::{zero,plus,minus,inverse}) (Inl (Inl l1)) \<Longrightarrow>
     (\<forall>f r. (parse_T l1 :: error + ('a evaluator \<times> char list)) = Inr (f, r) \<longrightarrow> length r < length l1)"
  "parse_T_parse_I_parse_S_parse_R_parse_D_dom TYPE('a) (Inl (Inr l2)) \<Longrightarrow>
     (\<forall>f r. (parse_I l2 :: error + ('a evaluator \<times> char list)) = Inr (f, r) \<longrightarrow> length r < length l2)"
  "parse_T_parse_I_parse_S_parse_R_parse_D_dom TYPE('a) (Inr (Inl l3)) \<Longrightarrow>
     (\<forall>f r. (parse_S l3 :: error + ('a evaluator \<times> char list)) = Inr (f, r) \<longrightarrow> length r < length l3)"
  "parse_T_parse_I_parse_S_parse_R_parse_D_dom TYPE('a) (Inr (Inr (Inl l4))) \<Longrightarrow>
     (\<forall>f r. (parse_R l4 :: error + ('a evaluator \<times> char list)) = Inr (f, r) \<longrightarrow> length r < length l4)"
  "parse_T_parse_I_parse_S_parse_R_parse_D_dom TYPE('a) (Inr (Inr (Inr l5))) \<Longrightarrow>
     (\<forall>f r. (parse_D l5 :: error + ('a evaluator \<times> char list)) = Inr (f, r) \<longrightarrow> length r < length l5)"
proof (induct rule: parse_T_parse_I_parse_S_parse_R_parse_D.pinduct)
  case (1 lexer)
  show ?case
  proof (intro allI impI)
    fix f :: "'a evaluator" and r
    assume p: "parse_T lexer = Inr (f, r)"
    then obtain ch lexer1 where n: "lexer_next lexer = Inr (ch, lexer1)"
      by (auto simp: parse_T.psimps [OF "1.hyps"(1)] split: sum.splits)
    have less: "length lexer1 < length lexer"
      using n by (rule lexer_next_length)
    have "length r < length lexer1"
      using p n "1.hyps"(2) [OF n refl] "1.hyps"(3) [OF n refl] "1.hyps"(4) [OF n refl]
        "1.hyps"(5) [OF n refl]
      by (auto simp: parse_T.psimps [OF "1.hyps"(1)] split: if_splits dest: parse_B_length)
    with less show "length r < length lexer" by simp
  qed
next
  case (2 lexer)
  show ?case
  proof (intro allI impI)
    fix f :: "'a evaluator" and r
    assume p: "parse_I lexer = Inr (f, r)"
    then obtain la a lb lc b ld where
      s: "ensure_follows lexer CHR ''('' = Inr la" "parse_T la = Inr (a :: 'a evaluator, lb)"
        "ensure_follows lb CHR '','' = Inr lc" "parse_T lc = Inr (b :: 'a evaluator, ld)"
        "ensure_follows ld CHR '')'' = Inr r"
      by (auto simp: parse_I.psimps [OF "2.hyps"(1)] split: sum.splits)
    show "length r < length lexer"
      using s(1) s(2) s(3) s(4) s(5) "2.hyps"(2) [OF s(1)] "2.hyps"(3) [OF s(1) s(2) refl s(3)]
      by (rule binary_length)
  qed
next
  case (3 lexer)
  show ?case
  proof (intro allI impI)
    fix f :: "'a evaluator" and r
    assume p: "parse_S lexer = Inr (f, r)"
    then obtain la a lb lc b ld where
      s: "ensure_follows lexer CHR ''('' = Inr la" "parse_T la = Inr (a :: 'a evaluator, lb)"
        "ensure_follows lb CHR '','' = Inr lc" "parse_T lc = Inr (b :: 'a evaluator, ld)"
        "ensure_follows ld CHR '')'' = Inr r"
      by (auto simp: parse_S.psimps [OF "3.hyps"(1)] split: sum.splits)
    show "length r < length lexer"
      using s(1) s(2) s(3) s(4) s(5) "3.hyps"(2) [OF s(1)] "3.hyps"(3) [OF s(1) s(2) refl s(3)]
      by (rule binary_length)
  qed
next
  case (4 lexer)
  show ?case
  proof (intro allI impI)
    fix f :: "'a evaluator" and r
    assume p: "parse_R lexer = Inr (f, r)"
    then obtain la a lb lc b ld where
      s: "ensure_follows lexer CHR ''('' = Inr la" "parse_T la = Inr (a :: 'a evaluator, lb)"
        "ensure_follows lb CHR '','' = Inr lc" "parse_T lc = Inr (b :: 'a evaluator, ld)"
        "ensure_follows ld CHR '')'' = Inr r"
      by (auto simp: parse_R.psimps [OF "4.hyps"(1)] split: sum.splits)
    show "length r < length lexer"
      using s(1) s(2) s(3) s(4) s(5) "4.hyps"(2) [OF s(1)] "4.hyps"(3) [OF s(1) s(2) refl s(3)]
      by (rule binary_length)
  qed
next
  case (5 lexer)
  show ?case
  proof (intro allI impI)
    fix f :: "'a evaluator" and r
    assume p: "parse_D lexer = Inr (f, r)"
    then obtain la a lb lc b ld le c lf where
      s: "ensure_follows lexer CHR ''('' = Inr la" "parse_T la = Inr (a :: 'a evaluator, lb)"
        "ensure_follows lb CHR '','' = Inr lc" "parse_T lc = Inr (b :: 'a evaluator, ld)"
        "ensure_follows ld CHR '','' = Inr le" "parse_T le = Inr (c :: 'a evaluator, lf)"
        "ensure_follows lf CHR '')'' = Inr r"
      by (auto simp: parse_D.psimps [OF "5.hyps"(1)] split: sum.splits)
    have "length le < length lexer"
      using s(1) s(2) s(3) s(4) s(5) "5.hyps"(2) [OF s(1)] "5.hyps"(3) [OF s(1) s(2) refl s(3)]
      by (rule binary_length)
    moreover have "length lf < length le"
      using "5.hyps"(4) [OF s(1) s(2) refl s(3) s(4) refl s(5)] s(6) by simp
    moreover have "length r < length lf"
      using s(7) by (rule ensure_follows_length)
    ultimately show "length r < length lexer" by linarith
  qed
qed

lemma parse_dom_total:
  "All (parse_T_parse_I_parse_S_parse_R_parse_D_dom TYPE('a::{zero,plus,minus,inverse}))"
proof (relation "measure (\<lambda>s. case s of Inl (Inl l) \<Rightarrow> length l | Inl (Inr l) \<Rightarrow> length l
    | Inr (Inl l) \<Rightarrow> length l | Inr (Inr (Inl l)) \<Rightarrow> length l | Inr (Inr (Inr l)) \<Rightarrow> length l)",
    goal_cases)
  case 1 show ?case by simp
qed (auto dest!: lexer_next_length ensure_follows_length parse_partial_length(1) [rule_format])

termination parse_T
  by (rule parse_dom_total)

declare parse_T.simps [simp del] parse_I.simps [simp del] parse_S.simps [simp del]
  parse_R.simps [simp del] parse_D.simps [simp del]

lemma parse_T_length:
  "(parse_T l :: error + (('a::{zero,plus,minus,inverse}) evaluator \<times> char list)) = Inr (f, r)
     \<Longrightarrow> length r < length l"
  using parse_partial_length(1) [of l] parse_dom_total [where 'a = 'a] by blast

text \<open>
  The loop of \<open>parse_E\<close>: \<open>while lexer\<close> tests that the list is not empty, whatever the
  characters left in it are.
\<close>

function parse_E_loop ::
  "('a::{zero,plus,minus,inverse}) evaluator list \<Rightarrow> char list \<Rightarrow> error + 'a evaluator list" where
  "parse_E_loop vals lexer =
     (if lexer \<noteq> [] then
        (case ensure_follows lexer CHR '';'' of Inl e \<Rightarrow> Inl e
         | Inr lexer1 \<Rightarrow>
        (case parse_T lexer1 of Inl e \<Rightarrow> Inl e
         | Inr (val, lexer2) \<Rightarrow> parse_E_loop (vals @ [val]) lexer2))
      else Inr vals)"
  by pat_completeness auto
termination
  by (relation "measure (\<lambda>(vals, lexer). length lexer)")
     (auto dest!: ensure_follows_length parse_T_length)

declare parse_E_loop.simps [simp del]

definition parse_E :: "char list \<Rightarrow> error + ('a::{zero,plus,minus,inverse}) evaluator list" where
  "parse_E lexer =
     (case parse_T lexer of Inl e \<Rightarrow> Inl e
      | Inr (val, lexer1) \<Rightarrow> parse_E_loop [val] lexer1)"

text \<open>
  The class \<open>FeatureExtendedExtractor\<close>: the constructor parses the whole string and keeps
  the list of closures; calling the object applies each closure to the vector, in order, and
  the first exception ends the call.
\<close>

definition FeatureExtendedExtractor ::
  "char list \<Rightarrow> error + ('a::{zero,plus,minus,inverse}) evaluator list" where
  "FeatureExtendedExtractor expr = parse_E expr"

fun extractor_call :: "'a evaluator list \<Rightarrow> 'a list \<Rightarrow> error + 'a list" where
  "extractor_call [] x = Inr []"
| "extractor_call (f # fs) x =
     (case f x of Inl e \<Rightarrow> Inl e
      | Inr v \<Rightarrow> (case extractor_call fs x of Inl e \<Rightarrow> Inl e | Inr vs \<Rightarrow> Inr (v # vs)))"

subsection \<open>Notions of the specification\<close>

text \<open>
  The table of the specification, as a map from the label (the characters after \<open>B\<close>) to
  the offset: \<open>1\<close> to \<open>8\<close> give 0 to 7, \<open>8A\<close> and \<open>8a\<close> give 8, \<open>9\<close> gives 9, and \<open>10\<close>,
  \<open>11\<close>, \<open>12\<close> give themselves. It follows the specification's words and is compared with
  what \<open>parse_B\<close> builds.
\<close>

definition band_index :: "string \<Rightarrow> int option" where
  "band_index = map_of
     [(''1'', 0), (''2'', 1), (''3'', 2), (''4'', 3), (''5'', 4), (''6'', 5), (''7'', 6),
      (''8'', 7), (''8A'', 8), (''8a'', 8), (''9'', 9), (''10'', 10), (''11'', 11), (''12'', 12)]"

text \<open>
  The grammar \<open>E -> T | T;E\<close> of the module's docstring, read as a relation between a
  formula and the closures of its terms in their order of appearance: a formula is one term
  that uses up the stream, or a term, then \<open>;\<close>, then a formula. The terms are what
  \<open>parse_T\<close> compiles; it is compared with the loop of \<open>parse_E\<close>.
\<close>

inductive E_terms :: "char list \<Rightarrow> ('a::{zero,plus,minus,inverse}) evaluator list \<Rightarrow> bool" where
  single: "parse_T l = Inr (f, []) \<Longrightarrow> E_terms l [f]"
| followed: "parse_T l = Inr (f, r) \<Longrightarrow> r \<noteq> [] \<Longrightarrow> ensure_follows r CHR '';'' = Inr r'
     \<Longrightarrow> E_terms r' fs \<Longrightarrow> E_terms l (f # fs)"

subsection \<open>Notions used in the proofs\<close>

text \<open>
  What an exception tells about the input: \<open>SyntaxError\<close> carries the expected character,
  one of the four that the parser asks for, and the different character that was read
  instead; \<open>KeyError\<close> carries a character of the input that starts no production;
  \<open>ValueError\<close> carries a character of the input that is not a decimal digit. \<open>IndexError\<close>
  carries nothing, and \<open>ZeroDivisionError\<close> is not raised while a formula is compiled.
\<close>

fun raised_from :: "char list \<Rightarrow> error \<Rightarrow> bool" where
  "raised_from l IndexError \<longleftrightarrow> True"
| "raised_from l (KeyError ch) \<longleftrightarrow> ch \<in> set l \<and> \<not> isspace ch \<and> ch \<notin> set ''ISRDB''"
| "raised_from l (SyntaxError expected_ch ch) \<longleftrightarrow>
     expected_ch \<in> set ''(,);'' \<and> ch \<in> set l \<and> \<not> isspace ch \<and> ch \<noteq> expected_ch"
| "raised_from l (ValueError ch) \<longleftrightarrow> ch \<in> set l \<and> \<not> isspace ch \<and> ch \<notin> set ''0123456789''"
| "raised_from l ZeroDivisionError \<longleftrightarrow> False"

text \<open>
  A stream has a clean end when it is empty or its last character is not white space. The
  stream \<open>r\<close> is what is left of \<open>l\<close> by the lexer when \<open>r\<close> is a suffix of \<open>l\<close> and, if nothing
  is left, \<open>l\<close> had a clean end: the lexer removes white space only on its way to a
  character that is not.
\<close>

definition clean_end :: "char list \<Rightarrow> bool" where
  "clean_end l \<longleftrightarrow> l = [] \<or> \<not> isspace (last l)"

definition consumed :: "char list \<Rightarrow> char list \<Rightarrow> bool" where
  "consumed l r \<longleftrightarrow> (\<exists>p. l = p @ r) \<and> (r = [] \<longrightarrow> clean_end l)"

definition good :: "char list \<Rightarrow> error + ('b \<times> char list) \<Rightarrow> bool" where
  "good l res \<longleftrightarrow> (case res of Inl e \<Rightarrow> raised_from l e | Inr (f, r) \<Rightarrow> consumed l r)"

text \<open>
  \<open>squeeze\<close> removes the white space of a string, in a stream and in the result of a
  parsing function.
\<close>

definition squeeze :: "char list \<Rightarrow> char list" where
  "squeeze l = filter (\<lambda>c. \<not> isspace c) l"

definition squeezed :: "error + ('b \<times> char list) \<Rightarrow> error + ('b \<times> char list)" where
  "squeezed res = (case res of Inl e \<Rightarrow> Inl e | Inr (f, r) \<Rightarrow> Inr (f, squeeze r))"

text \<open>
  A result carries over to a stream that was extended by \<open>s\<close>: a successful one when the
  same closure is returned and the rest of the stream is longer by \<open>s\<close>, an exception
  other than \<open>IndexError\<close> when the same exception is raised.
\<close>

definition carries_over :: "char list \<Rightarrow> error + ('b \<times> char list) \<Rightarrow> error + ('b \<times> char list) \<Rightarrow> bool" where
  "carries_over s res res' \<longleftrightarrow>
     (\<forall>f r. res = Inr (f, r) \<longrightarrow> res' = Inr (f, r @ s))
     \<and> (\<forall>e. res = Inl e \<longrightarrow> e \<noteq> IndexError \<longrightarrow> res' = Inl e)"

text \<open>
  A parsing step can be completed on a stream when, if it raises \<open>IndexError\<close> there, it
  succeeds and uses up the stream after some characters are appended. It can be started
  when it succeeds on some stream and uses it up.
\<close>

definition completes :: "(char list \<Rightarrow> error + ('b \<times> char list)) \<Rightarrow> char list \<Rightarrow> bool" where
  "completes k l \<longleftrightarrow> (k l = Inl IndexError \<longrightarrow> (\<exists>s f. k (l @ s) = Inr (f, [])))"

definition startable :: "(char list \<Rightarrow> error + ('b \<times> char list)) \<Rightarrow> bool" where
  "startable k \<longleftrightarrow> (\<exists>s f. k s = Inr (f, []))"

section \<open>Facts about the lexer and the band production\<close>

lemma lexer_next_simps [simp]:
  "lexer_next [] = Inl IndexError"
  "lexer_next (c # cs) = (if isspace c then lexer_next cs else Inr (c, cs))"
  by (simp_all add: lexer_next_def)

lemma peek_simps [simp]:
  "peek [] = Inl IndexError"
  "peek (c # cs) = (if isspace c then peek cs else Inr (c, c # cs))"
  by (simp_all add: peek_def)

lemma ensure_follows_simps [simp]:
  "ensure_follows [] e = Inl IndexError"
  "ensure_follows (c # cs) e =
     (if isspace c then ensure_follows cs e
      else if c \<noteq> e then Inl (SyntaxError e c) else Inr cs)"
  by (simp_all add: ensure_follows_def)

lemmas char_preds = isspace_def isdigit_def lower_is_a_def py_int_def

lemmas parse_unfold = parse_T.simps parse_I.simps parse_S.simps parse_R.simps parse_D.simps
  parse_B_def parse_E_def parse_E_loop.simps FeatureExtendedExtractor_def

lemma py_int_digit:
  "py_int d = Inr a \<Longrightarrow> \<not> isspace d \<and> isdigit d \<and> \<not> lower_is_a d \<and> 0 \<le> a \<and> a \<le> 9"
  by (auto simp: char_preds split: if_splits option.splits)

lemma peek_not_space: "peek l = Inr (c, r) \<Longrightarrow> \<not> isspace c \<and> (\<exists>t. r = c # t)"
  by (induction l) (auto split: if_splits)

lemma parse_B_two_digits:
  "\<not> isspace num \<Longrightarrow> \<not> isspace nxt \<Longrightarrow> isdigit nxt \<Longrightarrow>
   parse_B (num # nxt # rest) = Inr (two_digit_fun num nxt, rest)"
  by (simp add: parse_B_def)

lemma parse_B_one_digit:
  "\<not> isspace num \<Longrightarrow> peek rest = Inr (c, rest') \<Longrightarrow> \<not> isdigit c \<Longrightarrow> \<not> lower_is_a c \<Longrightarrow>
   parse_B (num # rest) =
     (case py_int num of Inl e \<Rightarrow> Inl e | Inr n \<Rightarrow> Inr (one_digit_fun (n - 1), rest'))"
  by (simp add: parse_B_def)

lemma parse_T_band: "parse_T (CHR ''B'' # l) = parse_B l"
  by (simp add: parse_T.simps isspace_def)

lemma peek_all_space: "\<forall>c\<in>set ws. isspace c \<Longrightarrow> peek ws = Inl IndexError"
  by (induction ws) auto

lemma lexer_next_all_space: "\<forall>c\<in>set ws. isspace c \<Longrightarrow> lexer_next ws = Inl IndexError"
  by (induction ws) auto

lemma lexer_next_Inl: "lexer_next l = Inl e \<longleftrightarrow> e = IndexError \<and> (\<forall>c\<in>set l. isspace c)"
  by (induction l) auto

lemma peek_Inl: "peek l = Inl e \<longleftrightarrow> e = IndexError \<and> (\<forall>c\<in>set l. isspace c)"
  by (induction l) auto

lemma lexer_next_Inr:
  "lexer_next l = Inr (c, r) \<longleftrightarrow>
     (\<exists>ws. l = ws @ c # r \<and> (\<forall>w\<in>set ws. isspace w) \<and> \<not> isspace c)"
proof (induction l)
  case Nil
  then show ?case by simp
next
  case (Cons a l)
  show ?case
  proof (cases "isspace a")
    case True
    have "(\<exists>ws. a # l = ws @ c # r \<and> (\<forall>w\<in>set ws. isspace w) \<and> \<not> isspace c)
      \<longleftrightarrow> (\<exists>ws. l = ws @ c # r \<and> (\<forall>w\<in>set ws. isspace w) \<and> \<not> isspace c)"
      (is "?L \<longleftrightarrow> ?R")
    proof
      assume ?L
      then obtain ws where w: "a # l = ws @ c # r" "\<forall>w\<in>set ws. isspace w" "\<not> isspace c"
        by blast
      with True obtain ws' where "ws = a # ws'" by (cases ws) auto
      with w show ?R by auto
    next
      assume ?R
      then obtain ws where "l = ws @ c # r" "\<forall>w\<in>set ws. isspace w" "\<not> isspace c" by blast
      with True have "a # l = (a # ws) @ c # r \<and> (\<forall>w\<in>set (a # ws). isspace w) \<and> \<not> isspace c"
        by simp
      then show ?L by blast
    qed
    with True Cons show ?thesis by simp
  next
    case False
    have "(\<exists>ws. a # l = ws @ c # r \<and> (\<forall>w\<in>set ws. isspace w) \<and> \<not> isspace c)
      \<longleftrightarrow> a = c \<and> l = r"
      (is "?L \<longleftrightarrow> ?R")
    proof
      assume ?L
      then obtain ws where w: "a # l = ws @ c # r" "\<forall>w\<in>set ws. isspace w" "\<not> isspace c"
        by blast
      with False have "ws = []" by (cases ws) auto
      with w show ?R by simp
    next
      assume ?R
      with False have "a # l = [] @ c # r \<and> (\<forall>w\<in>set []. isspace w) \<and> \<not> isspace c" by simp
      then show ?L by blast
    qed
    with False show ?thesis by auto
  qed
qed

lemma peek_lexer_next: "peek l = Inr (c, r) \<longleftrightarrow> (\<exists>t. r = c # t \<and> lexer_next l = Inr (c, t))"
  by (induction l) auto

lemma ensure_follows_Inr: "ensure_follows l e = Inr r \<longleftrightarrow> lexer_next l = Inr (e, r)"
  by (induction l) auto

lemma ensure_follows_Inl:
  "ensure_follows l e = Inl x \<longleftrightarrow>
     lexer_next l = Inl x \<or> (\<exists>c r. lexer_next l = Inr (c, r) \<and> c \<noteq> e \<and> x = SyntaxError e c)"
  by (induction l) auto

lemma py_int_Inl: "py_int c = Inl e \<longleftrightarrow> c \<notin> set ''0123456789'' \<and> e = ValueError c"
  by (auto simp: py_int_def split: option.splits if_splits)

lemma py_int_Inr: "py_int c = Inr n \<Longrightarrow> c \<in> set ''0123456789''"
  by (auto simp: py_int_def split: option.splits if_splits)





lemma parse_T_dispatch:
  "lexer_next l = Inr (ch, l0) \<Longrightarrow>
   parse_T l =
     (if ch = CHR ''I'' then parse_I l0 else if ch = CHR ''S'' then parse_S l0
      else if ch = CHR ''R'' then parse_R l0 else if ch = CHR ''D'' then parse_D l0
      else if ch = CHR ''B'' then parse_B l0 else Inl (KeyError ch))"
  by (subst parse_T.simps) simp

lemma parse_B_Inl:
  "(parse_B l :: error + ('a::{zero,plus,minus,inverse}) evaluator \<times> char list) = Inl e \<longleftrightarrow>
     e = IndexError \<and>
       (lexer_next l = Inl IndexError
        \<or> (\<exists>num lexer1. lexer_next l = Inr (num, lexer1) \<and> peek lexer1 = Inl IndexError))
     \<or> (\<exists>num lexer1 nxt lexer2.
          lexer_next l = Inr (num, lexer1) \<and> peek lexer1 = Inr (nxt, lexer2)
          \<and> \<not> isdigit nxt \<and> nxt \<noteq> CHR ''a'' \<and> nxt \<noteq> CHR ''A''
          \<and> num \<notin> set ''0123456789'' \<and> e = ValueError num)"
proof (cases "lexer_next l")
  case (Inl x)
  then have "x = IndexError" by (simp add: lexer_next_Inl)
  with Inl show ?thesis
    by (auto simp: parse_B_def)
next
  case (Inr p)
  obtain num lexer1 where p: "p = (num, lexer1)" by (cases p)
  show ?thesis
  proof (cases "peek lexer1")
    case (Inl x)
    then have "x = IndexError" by (simp add: peek_Inl)
    with Inl Inr p show ?thesis
      by (auto simp: parse_B_def)
  next
    case pk: (Inr q)
    obtain nxt lexer2 where q: "q = (nxt, lexer2)" by (cases q)
    from pk q obtain t where t: "lexer2 = nxt # t"
      by (auto simp: peek_lexer_next)
    show ?thesis
    proof (cases "py_int num")
      case (Inl a)
      then have "a = ValueError num" "num \<notin> set ''0123456789''"
        by (simp_all add: py_int_Inl)
      with Inl Inr p pk q t show ?thesis
        by (auto simp: parse_B_def lower_is_a_def)
    next
      case n: (Inr n)
      then have "num \<in> set ''0123456789''" by (rule py_int_Inr)
      with n Inr p pk q t show ?thesis
        by (auto simp: parse_B_def lower_is_a_def)
    qed
  qed
qed

lemma parse_E_loop_terms:
  "parse_E_loop vals lexer = Inr fs \<Longrightarrow>
     \<exists>gs. fs = vals @ gs \<and>
       (if lexer = [] then gs = []
        else \<exists>r'. ensure_follows lexer CHR '';'' = Inr r' \<and> E_terms r' gs)"
proof (induction vals lexer arbitrary: fs rule: parse_E_loop.induct)
  case (1 vals lexer)
  show ?case
  proof (cases "lexer = []")
    case True
    with "1.prems" show ?thesis by (simp add: parse_E_loop.simps)
  next
    case False
    from "1.prems" False obtain lexer1 val lexer2 where
      s: "ensure_follows lexer CHR '';'' = Inr lexer1" "parse_T lexer1 = Inr (val, lexer2)"
        "parse_E_loop (vals @ [val]) lexer2 = Inr fs"
      by (subst (asm) parse_E_loop.simps) (auto split: sum.splits)
    from "1.IH" [OF False s(1) s(2) refl s(3)] obtain gs where
      g: "fs = (vals @ [val]) @ gs"
        "if lexer2 = [] then gs = []
         else \<exists>r'. ensure_follows lexer2 CHR '';'' = Inr r' \<and> E_terms r' gs"
      by blast
    have "E_terms lexer1 (val # gs)"
    proof (cases "lexer2 = []")
      case True
      with g(2) s(2) show ?thesis by (auto intro: E_terms.single)
    next
      case False
      with g(2) s(2) show ?thesis by (auto intro: E_terms.followed)
    qed
    with False s(1) g(1) show ?thesis by auto
  qed
qed

lemma parse_E_terms: "parse_E l = Inr fs \<Longrightarrow> E_terms l fs"
proof -
  assume a: "parse_E l = Inr fs"
  then obtain val lexer1 where
    s: "parse_T l = Inr (val, lexer1)" "parse_E_loop [val] lexer1 = Inr fs"
    by (auto simp: parse_E_def split: sum.splits)
  from parse_E_loop_terms [OF s(2)] obtain gs where
    g: "fs = [val] @ gs"
      "if lexer1 = [] then gs = []
       else \<exists>r'. ensure_follows lexer1 CHR '';'' = Inr r' \<and> E_terms r' gs"
    by blast
  show ?thesis
  proof (cases "lexer1 = []")
    case True
    with g s(1) show ?thesis by (auto intro: E_terms.single)
  next
    case False
    with g s(1) show ?thesis by (auto intro: E_terms.followed)
  qed
qed

lemma extractor_call_Inr:
  "extractor_call fs x = Inr ys \<longleftrightarrow>
     length ys = length fs \<and> (\<forall>i<length fs. (fs ! i) x = Inr (ys ! i))"
proof (induction fs arbitrary: ys)
  case Nil
  then show ?case by auto
next
  case (Cons f fs)
  show ?case
  proof (cases ys)
    case Nil
    then show ?thesis by (auto split: sum.splits)
  next
    case (Cons y ys')
    have "(\<forall>i<Suc (length fs). ((f # fs) ! i) x = Inr ((y # ys') ! i))
       \<longleftrightarrow> f x = Inr y \<and> (\<forall>i<length fs. (fs ! i) x = Inr (ys' ! i))"
      by (auto simp: nth_Cons split: nat.splits)
    with Cons Cons.IH [of ys'] show ?thesis
      by (auto split: sum.splits)
  qed
qed

lemma E_terms_loop:
  "E_terms r' gs \<Longrightarrow> lexer \<noteq> [] \<Longrightarrow> ensure_follows lexer CHR '';'' = Inr r' \<Longrightarrow>
   parse_E_loop vals lexer = Inr (vals @ gs)"
proof (induction r' gs arbitrary: lexer vals rule: E_terms.induct)
  case (single l f)
  then show ?case
    by (subst parse_E_loop.simps) (simp add: parse_E_loop.simps [of _ "[]"])
next
  case (followed l f r r' fs)
  from followed.IH [OF followed.hyps(2) followed.hyps(3), of "vals @ [f]"]
  have "parse_E_loop (vals @ [f]) r = Inr (vals @ f # fs)" by simp
  with followed.prems followed.hyps(1) show ?case
    by (subst parse_E_loop.simps) simp
qed

lemma E_terms_parse_E: "E_terms l fs \<Longrightarrow> parse_E l = Inr fs"
proof (cases rule: E_terms.cases, assumption)
  fix f
  assume "fs = [f]" "parse_T l = Inr (f, [])"
  then show ?thesis by (simp add: parse_E_def parse_E_loop.simps)
next
  fix f r r' gs
  assume "fs = f # gs" "parse_T l = Inr (f, r)" "r \<noteq> []"
    "ensure_follows r CHR '';'' = Inr r'" "E_terms r' gs"
  with E_terms_loop [of r' gs r "[f]"] show ?thesis by (simp add: parse_E_def)
qed

lemma extractor_call_returns:
  assumes "\<forall>i<length fs. \<exists>v. (fs ! i) x = Inr v"
  shows "\<exists>ys. extractor_call fs x = Inr ys"
proof -
  from assms have "\<forall>i<length fs. (fs ! i) x = Inr (map (\<lambda>f. projr (f x)) fs ! i)"
    by auto
  then have "extractor_call fs x = Inr (map (\<lambda>f. projr (f x)) fs)"
    by (simp add: extractor_call_Inr)
  then show ?thesis ..
qed

lemma E_terms_nonempty: "E_terms l fs \<Longrightarrow> fs \<noteq> []"
  by (cases rule: E_terms.cases) auto

lemma getitem_nonneg:
  "0 \<le> i \<Longrightarrow> getitem x i = (if nat i < length x then Inr (x ! nat i) else Inl IndexError)"
  by (auto simp: getitem_def)

section \<open>What the parser consumes and what it raises\<close>

lemma consumed_refl: "consumed l l"
  by (simp add: consumed_def clean_end_def)

lemma consumed_trans:
  assumes "consumed l m" and "consumed m r"
  shows "consumed l r"
proof -
  from assms obtain p q where p: "l = p @ m" and q: "m = q @ r"
    unfolding consumed_def by blast
  have "clean_end l" if "r = []"
  proof (cases "m = []")
    case True
    with assms(1) show ?thesis by (simp add: consumed_def)
  next
    case False
    with assms(2) that p show ?thesis by (simp add: consumed_def clean_end_def)
  qed
  moreover from p q have "l = (p @ q) @ r" by simp
  ultimately show ?thesis unfolding consumed_def by blast
qed

lemma consumed_set: "consumed l r \<Longrightarrow> set r \<subseteq> set l"
  by (auto simp: consumed_def)

lemma consumed_clean: "consumed l r \<Longrightarrow> clean_end l \<Longrightarrow> clean_end r"
  by (auto simp: consumed_def clean_end_def)

lemma consumed_unclean: "consumed l r \<Longrightarrow> \<not> clean_end l \<Longrightarrow> r \<noteq> [] \<and> \<not> clean_end r"
  by (auto simp: consumed_def clean_end_def)

lemma raised_from_mono: "raised_from r e \<Longrightarrow> set r \<subseteq> set l \<Longrightarrow> raised_from l e"
  by (cases e) auto

lemma raised_from_consumed: "raised_from r e \<Longrightarrow> consumed l r \<Longrightarrow> raised_from l e"
  by (blast intro: raised_from_mono dest: consumed_set)

lemma lexer_next_set: "lexer_next l = Inr (c, r) \<Longrightarrow> c \<in> set l \<and> \<not> isspace c"
  by (auto simp: lexer_next_Inr)

lemma lexer_next_consumed: "lexer_next l = Inr (c, r) \<Longrightarrow> consumed l r"
proof -
  assume "lexer_next l = Inr (c, r)"
  then obtain ws where "l = ws @ c # r" "\<not> isspace c"
    by (auto simp: lexer_next_Inr)
  then have "l = (ws @ [c]) @ r \<and> (r = [] \<longrightarrow> clean_end l)" by (simp add: clean_end_def)
  then show ?thesis unfolding consumed_def by blast
qed

lemma peek_consumed: "peek l = Inr (c, r) \<Longrightarrow> consumed l r \<and> c \<in> set l \<and> \<not> isspace c"
  by (auto simp: peek_lexer_next lexer_next_Inr consumed_def)

lemma popleft_consumed: "peek l = Inr (c, r) \<Longrightarrow> popleft r = Inr (d, t) \<Longrightarrow> consumed l t"
proof -
  assume "peek l = Inr (c, r)" "popleft r = Inr (d, t)"
  then have "lexer_next l = Inr (c, t)" by (auto simp: peek_lexer_next)
  then show ?thesis by (rule lexer_next_consumed)
qed

lemma ensure_follows_consumed: "ensure_follows l c = Inr r \<Longrightarrow> consumed l r"
  by (auto simp: ensure_follows_Inr dest: lexer_next_consumed)

lemma ensure_follows_raised:
  "ensure_follows l c = Inl e \<Longrightarrow> c \<in> set ''(,);'' \<Longrightarrow> raised_from l e"
  by (auto simp: ensure_follows_Inl lexer_next_Inl lexer_next_Inr)

lemma good_parse_B:
  "good l (parse_B l :: error + ('a::{zero,plus,minus,inverse}) evaluator \<times> char list)"
proof (cases "parse_B l :: error + 'a evaluator \<times> char list")
  case (Inl e)
  then have "raised_from l e"
    unfolding parse_B_Inl
    by (auto dest!: lexer_next_set peek_consumed dest: consumed_set)
  with Inl show ?thesis by (simp add: good_def)
next
  case (Inr p)
  then obtain num lexer1 nxt lexer2 where
    s: "lexer_next l = Inr (num, lexer1)" "peek lexer1 = Inr (nxt, lexer2)"
    by (auto simp: parse_B_def split: sum.splits)
  note c1 = lexer_next_consumed [OF s(1)]
  from s(2) obtain t where t: "lexer2 = nxt # t" by (auto simp: peek_lexer_next)
  then have pl: "popleft lexer2 = Inr (nxt, t)" by simp
  have "snd p = t \<or> snd p = lexer2"
    using Inr s pl by (auto simp: parse_B_def split: sum.splits if_splits)
  moreover have "consumed lexer1 t" using s(2) pl by (rule popleft_consumed)
  moreover have "consumed lexer1 lexer2" using s(2) by (simp add: peek_consumed)
  ultimately have "consumed l (snd p)" using c1 by (auto intro: consumed_trans)
  with Inr show ?thesis by (auto simp: good_def split: prod.splits)
qed

lemma good_return: "good l (Inr (f, l))"
  by (simp add: good_def consumed_refl)

lemma good_ensure:
  assumes "c \<in> set ''(,);''"
    and "\<And>l1. ensure_follows l c = Inr l1 \<Longrightarrow> good l1 (k l1)"
  shows "good l (case ensure_follows l c of Inl e \<Rightarrow> Inl e | Inr l1 \<Rightarrow> k l1)"
proof (cases "ensure_follows l c")
  case (Inl e)
  with assms(1) show ?thesis by (auto simp: good_def dest: ensure_follows_raised)
next
  case (Inr l1)
  from assms(2) [OF Inr] ensure_follows_consumed [OF Inr] Inr show ?thesis
    by (auto simp: good_def split: sum.splits intro: raised_from_consumed consumed_trans)
qed

lemma good_then:
  assumes "good l (pT l)"
    and "\<And>a l2. pT l = Inr (a, l2) \<Longrightarrow> good l2 (k a l2)"
  shows "good l (case pT l of Inl e \<Rightarrow> Inl e | Inr (a, l2) \<Rightarrow> k a l2)"
proof (cases "pT l")
  case (Inl e)
  with assms(1) show ?thesis by (simp add: good_def)
next
  case (Inr p)
  obtain a l2 where p: "p = (a, l2)" by (cases p)
  from assms(1) Inr p have "consumed l l2" by (simp add: good_def)
  with assms(2) [OF Inr [unfolded p]] Inr p show ?thesis
    by (auto simp: good_def split: sum.splits intro: raised_from_consumed consumed_trans)
qed

lemma good_parse:
  "good l1 (parse_T l1 :: error + ('a::{zero,plus,minus,inverse}) evaluator \<times> char list)"
  "good l2 (parse_I l2 :: error + 'a evaluator \<times> char list)"
  "good l3 (parse_S l3 :: error + 'a evaluator \<times> char list)"
  "good l4 (parse_R l4 :: error + 'a evaluator \<times> char list)"
  "good l5 (parse_D l5 :: error + 'a evaluator \<times> char list)"
proof (induct l1 and l2 and l3 and l4 and l5
    rule: parse_T_parse_I_parse_S_parse_R_parse_D.induct [where ?'a = 'a])
  case (1 lexer)
  show ?case
  proof (cases "lexer_next lexer")
    case (Inl e)
    then have "e = IndexError" by (simp add: lexer_next_Inl)
    with Inl show ?thesis by (simp add: parse_T.simps good_def)
  next
    case (Inr p)
    obtain ch lexer1 where p: "p = (ch, lexer1)" by (cases p)
    note n = Inr [unfolded p]
    note s = lexer_next_set [OF n] lexer_next_consumed [OF n]
    have "good lexer1 (parse_T lexer :: error + 'a evaluator \<times> char list) \<or>
      (parse_T lexer :: error + 'a evaluator \<times> char list) = Inl (KeyError ch) \<and> ch \<notin> set ''ISRDB''"
      using "1" [OF n refl] good_parse_B [of lexer1, where 'a = 'a]
      by (simp add: parse_T_dispatch [OF n])
    with s show ?thesis
      by (auto simp: good_def split: sum.splits intro: raised_from_consumed consumed_trans)
  qed
next
  case (2 lexer)
  show ?case
    unfolding parse_I.simps [of lexer]
    by (intro good_ensure good_then [where pT = parse_T] good_return;
        (simp; fail | (rule "2"; (assumption | rule refl))))
next
  case (3 lexer)
  show ?case
    unfolding parse_S.simps [of lexer]
    by (intro good_ensure good_then [where pT = parse_T] good_return;
        (simp; fail | (rule "3"; (assumption | rule refl))))
next
  case (4 lexer)
  show ?case
    unfolding parse_R.simps [of lexer]
    by (intro good_ensure good_then [where pT = parse_T] good_return;
        (simp; fail | (rule "4"; (assumption | rule refl))))
next
  case (5 lexer)
  show ?case
    unfolding parse_D.simps [of lexer]
    by (intro good_ensure good_then [where pT = parse_T] good_return;
        (simp; fail | (rule "5"; (assumption | rule refl))))
qed

lemma parse_T_consumed:
  "(parse_T l :: error + ('a::{zero,plus,minus,inverse}) evaluator \<times> char list) = Inr (f, r)
     \<Longrightarrow> consumed l r"
  using good_parse(1) [of l, where 'a = 'a] by (simp add: good_def)

lemma parse_T_raised:
  "(parse_T l :: error + ('a::{zero,plus,minus,inverse}) evaluator \<times> char list) = Inl e
     \<Longrightarrow> raised_from l e"
  using good_parse(1) [of l, where 'a = 'a] by (simp add: good_def)

lemma parse_E_loop_raised:
  "parse_E_loop vals lexer = Inl e \<Longrightarrow> raised_from lexer e"
proof (induction vals lexer rule: parse_E_loop.induct)
  case (1 vals lexer)
  from "1.prems" have ne: "lexer \<noteq> []"
    by (subst (asm) parse_E_loop.simps) (simp split: if_splits)
  show ?case
  proof (cases "ensure_follows lexer CHR '';''")
    case (Inl x)
    with "1.prems" ne have "x = e"
      by (subst (asm) parse_E_loop.simps) simp
    with Inl show ?thesis by (auto dest: ensure_follows_raised)
  next
    case l1: (Inr lexer1)
    note s1 = ensure_follows_consumed [OF l1]
    show ?thesis
    proof (cases "parse_T lexer1 :: error + 'a evaluator \<times> char list")
      case (Inl x)
      with "1.prems" ne l1 have "x = e"
        by (subst (asm) parse_E_loop.simps) simp
      with Inl have "raised_from lexer1 e" by (simp add: parse_T_raised)
      with s1 show ?thesis by (blast intro: raised_from_consumed)
    next
      case (Inr p)
      obtain val lexer2 where p: "p = (val, lexer2)" by (cases p)
      note s2 = parse_T_consumed [OF Inr [unfolded p]]
      from "1.prems" ne l1 Inr p have "parse_E_loop (vals @ [val]) lexer2 = Inl e"
        by (subst (asm) parse_E_loop.simps) simp
      from "1.IH" [OF ne l1 Inr [unfolded p] refl this] s1 s2 show ?thesis
        by (blast intro: raised_from_consumed)
    qed
  qed
qed

lemma parse_E_raised:
  assumes "(parse_E l :: error + ('a::{zero,plus,minus,inverse}) evaluator list) = Inl e"
  shows "raised_from l e"
proof (cases "parse_T l :: error + 'a evaluator \<times> char list")
  case (Inl x)
  with assms parse_T_raised [of l x, where 'a = 'a] show ?thesis
    by (simp add: parse_E_def)
next
  case (Inr p)
  obtain val lexer1 where p: "p = (val, lexer1)" by (cases p)
  from assms Inr p have "parse_E_loop [val] lexer1 = Inl e" by (simp add: parse_E_def)
  then have "raised_from lexer1 e" by (rule parse_E_loop_raised)
  then show ?thesis
    using parse_T_consumed [OF Inr [unfolded p]] by (rule raised_from_consumed)
qed

section \<open>Parsing a stream that is extended\<close>

text \<open>
  A successful parse does not depend on what follows the characters it used: the same
  closures are built, and the rest of the stream is longer by what was appended. An
  exception other than \<open>IndexError\<close> does not depend on it either.
\<close>

lemma lexer_next_append: "lexer_next l = Inr (c, r) \<Longrightarrow> lexer_next (l @ s) = Inr (c, r @ s)"
  by (induction l) (auto split: if_splits)

lemma peek_append: "peek l = Inr (c, r) \<Longrightarrow> peek (l @ s) = Inr (c, r @ s)"
  by (induction l) (auto split: if_splits)

lemma ensure_follows_append:
  "ensure_follows l c = Inr r \<Longrightarrow> ensure_follows (l @ s) c = Inr (r @ s)"
  by (induction l) (auto split: if_splits)

lemma ensure_follows_append_error:
  "ensure_follows l c = Inl e \<Longrightarrow> e \<noteq> IndexError \<Longrightarrow> ensure_follows (l @ s) c = Inl e"
  by (induction l) (auto split: if_splits)

lemma parse_B_append_error:
  assumes "(parse_B l :: error + ('a::{zero,plus,minus,inverse}) evaluator \<times> char list) = Inl e"
    and "e \<noteq> IndexError"
  shows "(parse_B (l @ s) :: error + 'a evaluator \<times> char list) = Inl e"
proof -
  from assms obtain num lexer1 nxt lexer2 where
    n: "lexer_next l = Inr (num, lexer1)" "peek lexer1 = Inr (nxt, lexer2)"
      "\<not> isdigit nxt" "nxt \<noteq> CHR ''a''" "nxt \<noteq> CHR ''A''"
      "num \<notin> set ''0123456789''" "e = ValueError num"
    unfolding parse_B_Inl by blast
  from lexer_next_append [OF n(1), of s] peek_append [OF n(2), of s] n(3-7)
  show ?thesis unfolding parse_B_Inl by blast
qed

lemma parse_B_append:
  assumes "(parse_B l :: error + ('a::{zero,plus,minus,inverse}) evaluator \<times> char list) = Inr (f, r)"
  shows "(parse_B (l @ s) :: error + 'a evaluator \<times> char list) = Inr (f, r @ s)"
proof -
  from assms obtain num lexer1 nxt lexer2 where
    n: "lexer_next l = Inr (num, lexer1)" "peek lexer1 = Inr (nxt, lexer2)"
    by (auto simp: parse_B_def split: sum.splits)
  from n(2) obtain t where t: "lexer2 = nxt # t" by (auto simp: peek_lexer_next)
  from assms n t lexer_next_append [OF n(1), of s] peek_append [OF n(2), of s] show ?thesis
    by (auto simp: parse_B_def split: if_splits sum.splits)
qed

lemma carries_return: "carries_over s (Inr (f, l)) (Inr (f, l @ s))"
  by (simp add: carries_over_def)

lemma carries_ensure:
  assumes "\<And>l1. ensure_follows l c = Inr l1 \<Longrightarrow> carries_over s (k l1) (k (l1 @ s))"
  shows "carries_over s (case ensure_follows l c of Inl e \<Rightarrow> Inl e | Inr l1 \<Rightarrow> k l1)
    (case ensure_follows (l @ s) c of Inl e \<Rightarrow> Inl e | Inr l1 \<Rightarrow> k l1)"
proof (cases "ensure_follows l c")
  case (Inl e)
  with ensure_follows_append_error [OF Inl, of s] show ?thesis
    by (auto simp: carries_over_def)
next
  case (Inr l1)
  with assms [OF Inr] ensure_follows_append [OF Inr, of s] show ?thesis by simp
qed

lemma carries_then:
  assumes "carries_over s (pT l) (pT (l @ s))"
    and "\<And>a l2. pT l = Inr (a, l2) \<Longrightarrow> carries_over s (k a l2) (k a (l2 @ s))"
  shows "carries_over s (case pT l of Inl e \<Rightarrow> Inl e | Inr (a, l2) \<Rightarrow> k a l2)
    (case pT (l @ s) of Inl e \<Rightarrow> Inl e | Inr (a, l2) \<Rightarrow> k a l2)"
proof (cases "pT l")
  case (Inl e)
  with assms(1) show ?thesis by (auto simp: carries_over_def)
next
  case (Inr p)
  obtain a l2 where p: "p = (a, l2)" by (cases p)
  from assms(1) Inr p have "pT (l @ s) = Inr (a, l2 @ s)" by (simp add: carries_over_def)
  with assms(2) [OF Inr [unfolded p]] Inr p show ?thesis by simp
qed

lemma parse_carries_over:
  "carries_over s (parse_T l1 :: error + ('a::{zero,plus,minus,inverse}) evaluator \<times> char list)
     (parse_T (l1 @ s))"
  "carries_over s (parse_I l2 :: error + 'a evaluator \<times> char list) (parse_I (l2 @ s))"
  "carries_over s (parse_S l3 :: error + 'a evaluator \<times> char list) (parse_S (l3 @ s))"
  "carries_over s (parse_R l4 :: error + 'a evaluator \<times> char list) (parse_R (l4 @ s))"
  "carries_over s (parse_D l5 :: error + 'a evaluator \<times> char list) (parse_D (l5 @ s))"
proof (induct l1 and l2 and l3 and l4 and l5
    rule: parse_T_parse_I_parse_S_parse_R_parse_D.induct [where ?'a = 'a])
  case (1 lexer)
  show ?case
  proof (cases "lexer_next lexer")
    case (Inl e)
    then have "e = IndexError" by (simp add: lexer_next_Inl)
    with Inl show ?thesis by (simp add: parse_T.simps [of lexer] carries_over_def)
  next
    case (Inr p)
    obtain ch lexer1 where p: "p = (ch, lexer1)" by (cases p)
    note n = Inr [unfolded p]
    note n' = lexer_next_append [OF n, of s]
    show ?thesis
      using "1" [OF n refl] parse_B_append [of lexer1 _ _ s, where 'a = 'a]
        parse_B_append_error [of lexer1 _ s, where 'a = 'a]
      by (auto simp: parse_T_dispatch [OF n] parse_T_dispatch [OF n'] carries_over_def)
  qed
next
  case (2 lexer)
  show ?case
    unfolding parse_I.simps [of lexer] parse_I.simps [of "lexer @ s"]
    by (intro carries_ensure carries_then [where pT = parse_T] carries_return;
        (rule "2"; (assumption | rule refl)))
next
  case (3 lexer)
  show ?case
    unfolding parse_S.simps [of lexer] parse_S.simps [of "lexer @ s"]
    by (intro carries_ensure carries_then [where pT = parse_T] carries_return;
        (rule "3"; (assumption | rule refl)))
next
  case (4 lexer)
  show ?case
    unfolding parse_R.simps [of lexer] parse_R.simps [of "lexer @ s"]
    by (intro carries_ensure carries_then [where pT = parse_T] carries_return;
        (rule "4"; (assumption | rule refl)))
next
  case (5 lexer)
  show ?case
    unfolding parse_D.simps [of lexer] parse_D.simps [of "lexer @ s"]
    by (intro carries_ensure carries_then [where pT = parse_T] carries_return;
        (rule "5"; (assumption | rule refl)))
qed

lemma parse_T_append:
  "(parse_T l :: error + ('a::{zero,plus,minus,inverse}) evaluator \<times> char list) = Inr (f, r) \<Longrightarrow>
   (parse_T (l @ s) :: error + 'a evaluator \<times> char list) = Inr (f, r @ s)"
  using parse_carries_over(1) [of s l, where 'a = 'a] by (simp add: carries_over_def)

lemma parse_T_append_error:
  "(parse_T l :: error + ('a::{zero,plus,minus,inverse}) evaluator \<times> char list) = Inl e \<Longrightarrow>
   e \<noteq> IndexError \<Longrightarrow> (parse_T (l @ s) :: error + 'a evaluator \<times> char list) = Inl e"
  using parse_carries_over(1) [of s l, where 'a = 'a] by (simp add: carries_over_def)

lemma parse_E_loop_append:
  "parse_E_loop vals lexer = Inr fs \<Longrightarrow> s \<noteq> [] \<Longrightarrow>
   parse_E_loop vals (lexer @ s) = parse_E_loop fs s"
proof (induction vals lexer rule: parse_E_loop.induct)
  case (1 vals lexer)
  show ?case
  proof (cases "lexer = []")
    case True
    with "1.prems" show ?thesis by (simp add: parse_E_loop.simps [of _ "[]"])
  next
    case False
    with "1.prems" obtain lexer1 val lexer2 where
      st: "ensure_follows lexer CHR '';'' = Inr lexer1" "parse_T lexer1 = Inr (val, lexer2)"
        "parse_E_loop (vals @ [val]) lexer2 = Inr fs"
      by (subst (asm) parse_E_loop.simps) (auto split: sum.splits)
    from "1.IH" [OF False st(1) st(2) refl st(3) "1.prems"(2)]
      ensure_follows_append [OF st(1), of s] parse_T_append [OF st(2), of s] False
    show ?thesis
      by (subst parse_E_loop.simps) simp
  qed
qed

lemma parse_E_append:
  assumes "(parse_E l :: error + ('a::{zero,plus,minus,inverse}) evaluator list) = Inr fs" and "s \<noteq> []"
  shows "(parse_E (l @ s) :: error + 'a evaluator list) = parse_E_loop fs s"
proof -
  from assms(1) obtain val lexer1 where
    st: "parse_T l = Inr (val, lexer1)" "parse_E_loop [val] lexer1 = Inr fs"
    by (auto simp: parse_E_def split: sum.splits)
  from parse_E_loop_append [OF st(2) assms(2)] parse_T_append [OF st(1), of s] show ?thesis
    by (simp add: parse_E_def)
qed

lemma parse_E_loop_append_error:
  "parse_E_loop vals lexer = Inl e \<Longrightarrow> e \<noteq> IndexError \<Longrightarrow>
   parse_E_loop vals (lexer @ s) = Inl e"
proof (induction vals lexer rule: parse_E_loop.induct)
  case (1 vals lexer)
  from "1.prems"(1) have ne: "lexer \<noteq> []"
    by (subst (asm) parse_E_loop.simps) (simp split: if_splits)
  show ?case
  proof (cases "ensure_follows lexer CHR '';''")
    case (Inl x)
    with "1.prems"(1) ne have "x = e"
      by (subst (asm) parse_E_loop.simps) simp
    with ensure_follows_append_error [OF Inl, of s] "1.prems"(2) ne show ?thesis
      by (subst parse_E_loop.simps) simp
  next
    case l1: (Inr lexer1)
    note a1 = ensure_follows_append [OF l1, of s]
    show ?thesis
    proof (cases "parse_T lexer1 :: error + 'a evaluator \<times> char list")
      case (Inl x)
      with "1.prems"(1) ne l1 have "x = e"
        by (subst (asm) parse_E_loop.simps) simp
      with parse_T_append_error [OF Inl, of s] "1.prems"(2) a1 ne show ?thesis
        by (subst parse_E_loop.simps) simp
    next
      case (Inr p)
      obtain val lexer2 where p: "p = (val, lexer2)" by (cases p)
      from "1.prems"(1) ne l1 Inr p have "parse_E_loop (vals @ [val]) lexer2 = Inl e"
        by (subst (asm) parse_E_loop.simps) simp
      from "1.IH" [OF ne l1 Inr [unfolded p] refl this "1.prems"(2)]
        parse_T_append [OF Inr [unfolded p], of s] a1 ne
      show ?thesis
        by (subst parse_E_loop.simps) simp
    qed
  qed
qed

lemma parse_E_append_error:
  assumes "(parse_E l :: error + ('a::{zero,plus,minus,inverse}) evaluator list) = Inl e"
    and "e \<noteq> IndexError"
  shows "(parse_E (l @ s) :: error + 'a evaluator list) = Inl e"
proof (cases "parse_T l :: error + 'a evaluator \<times> char list")
  case (Inl x)
  with assms(1) have "x = e" by (simp add: parse_E_def)
  with parse_T_append_error [OF Inl, of s] assms(2) show ?thesis by (simp add: parse_E_def)
next
  case (Inr p)
  obtain val lexer1 where p: "p = (val, lexer1)" by (cases p)
  from assms(1) Inr p have "parse_E_loop [val] lexer1 = Inl e" by (simp add: parse_E_def)
  from parse_E_loop_append_error [OF this assms(2), of s] parse_T_append [OF Inr [unfolded p], of s]
  show ?thesis by (simp add: parse_E_def)
qed

section \<open>C1: how construction can fail\<close>

text \<open>
  C1, as stated. The claim is that construction fails with a \<open>SyntaxError\<close> or not at all. Only
  \<open>ensure_follows\<close> raises that exception. An unknown leading character makes the
  dictionary lookup of \<open>parse_T\<close> raise \<open>KeyError\<close>, and the missing parenthesis leaves the
  lexer empty, so that \<open>self[0]\<close> raises \<open>IndexError\<close>.
\<close>

theorem construction_escapes_counterexample:
  "(FeatureExtendedExtractor ''X(B01,B02)'' :: error + real evaluator list) = Inl (KeyError CHR ''X'')
   \<and> (FeatureExtendedExtractor ''I(B01,B02'' :: error + real evaluator list) = Inl IndexError"
  by (simp add: parse_unfold char_preds)

text \<open>
  A parse that raised \<open>IndexError\<close> had read the whole stream without complaint, so it can
  be completed: after suitable characters are appended it succeeds.
\<close>

lemma lexer_next_blank_append:
  "\<forall>w\<in>set l. isspace w \<Longrightarrow> \<not> isspace c \<Longrightarrow> lexer_next (l @ c # r) = Inr (c, r)"
  by (induction l) simp_all

lemma peek_blank_append:
  "\<forall>w\<in>set l. isspace w \<Longrightarrow> \<not> isspace c \<Longrightarrow> peek (l @ c # r) = Inr (c, c # r)"
  by (induction l) simp_all

lemma ensure_follows_blank_append:
  "\<forall>w\<in>set l. isspace w \<Longrightarrow> \<not> isspace c \<Longrightarrow> ensure_follows (l @ c # r) c = Inr r"
  by (induction l) simp_all

lemma ensure_follows_IndexError:
  "ensure_follows l c = Inl IndexError \<Longrightarrow> \<forall>w\<in>set l. isspace w"
  by (auto simp: ensure_follows_Inl lexer_next_Inl)

lemma parse_T_B00:
  "(parse_T (''B00'' @ t) :: error + ('a::{zero,plus,minus,inverse}) evaluator \<times> char list)
     = Inr (two_digit_fun CHR ''0'' CHR ''0'', t)"
  by (simp add: parse_T_band parse_B_def char_preds)

lemma startable_return: "startable (\<lambda>l. Inr (f, l))"
  unfolding startable_def by blast

lemma startable_ensure:
  assumes "\<not> isspace c" and "startable k"
  shows "startable (\<lambda>l. case ensure_follows l c of Inl e \<Rightarrow> Inl e | Inr l1 \<Rightarrow> k l1)"
proof -
  from assms(2) obtain s f where "k s = Inr (f, [])" unfolding startable_def by blast
  with assms(1) have "(case ensure_follows (c # s) c of Inl e \<Rightarrow> Inl e | Inr l1 \<Rightarrow> k l1) = Inr (f, [])"
    by simp
  then show ?thesis unfolding startable_def by blast
qed

lemma startable_then:
  assumes "\<And>a. startable (k a)"
  shows "startable (\<lambda>l. case (parse_T l :: error + ('a::{zero,plus,minus,inverse}) evaluator \<times> char list)
      of Inl e \<Rightarrow> Inl e | Inr (a, l2) \<Rightarrow> k a l2)"
proof -
  from assms [of "two_digit_fun CHR ''0'' CHR ''0''"] obtain s f where
    "k (two_digit_fun CHR ''0'' CHR ''0'') s = Inr (f, [])"
    unfolding startable_def by blast
  with parse_T_B00 [of s, where 'a = 'a]
  have "(case (parse_T (''B00'' @ s) :: error + 'a evaluator \<times> char list)
      of Inl e \<Rightarrow> Inl e | Inr (a, l2) \<Rightarrow> k a l2) = Inr (f, [])"
    by simp
  then show ?thesis unfolding startable_def by blast
qed

lemma completes_return: "completes (\<lambda>l. Inr (f, l)) l"
  by (simp add: completes_def)

lemma completes_ensure:
  assumes "\<not> isspace c" and "startable k"
    and "\<And>l1. ensure_follows l c = Inr l1 \<Longrightarrow> completes k l1"
  shows "completes (\<lambda>l. case ensure_follows l c of Inl e \<Rightarrow> Inl e | Inr l1 \<Rightarrow> k l1) l"
  unfolding completes_def
proof
  assume f: "(case ensure_follows l c of Inl e \<Rightarrow> Inl e | Inr l1 \<Rightarrow> k l1) = Inl IndexError"
  show "\<exists>s f. (case ensure_follows (l @ s) c of Inl e \<Rightarrow> Inl e | Inr l1 \<Rightarrow> k l1) = Inr (f, [])"
  proof (cases "ensure_follows l c")
    case (Inl e)
    with f have "ensure_follows l c = Inl IndexError" by simp
    then have ws: "\<forall>w\<in>set l. isspace w" by (rule ensure_follows_IndexError)
    from assms(2) obtain s g where "k s = Inr (g, [])" unfolding startable_def by blast
    with ensure_follows_blank_append [OF ws assms(1), of s]
    have "(case ensure_follows (l @ c # s) c of Inl e \<Rightarrow> Inl e | Inr l1 \<Rightarrow> k l1) = Inr (g, [])"
      by simp
    then show ?thesis by blast
  next
    case (Inr l1)
    with f have "k l1 = Inl IndexError" by simp
    with assms(3) [OF Inr] obtain s g where "k (l1 @ s) = Inr (g, [])"
      unfolding completes_def by blast
    with ensure_follows_append [OF Inr, of s]
    have "(case ensure_follows (l @ s) c of Inl e \<Rightarrow> Inl e | Inr l1 \<Rightarrow> k l1) = Inr (g, [])"
      by simp
    then show ?thesis by blast
  qed
qed

lemma completes_then:
  fixes k :: "('a::{zero,plus,minus,inverse}) evaluator \<Rightarrow> char list \<Rightarrow> error + ('b \<times> char list)"
  assumes "completes (parse_T :: char list \<Rightarrow> error + 'a evaluator \<times> char list) l"
    and "\<And>a. startable (k a)"
    and "\<And>a l2. parse_T l = Inr (a, l2) \<Longrightarrow> completes (k a) l2"
  shows "completes (\<lambda>l. case parse_T l of Inl e \<Rightarrow> Inl e | Inr (a, l2) \<Rightarrow> k a l2) l"
  unfolding completes_def
proof
  assume f: "(case parse_T l of Inl e \<Rightarrow> Inl e | Inr (a, l2) \<Rightarrow> k a l2) = Inl IndexError"
  show "\<exists>s f. (case parse_T (l @ s) of Inl e \<Rightarrow> Inl e | Inr (a, l2) \<Rightarrow> k a l2) = Inr (f, [])"
  proof (cases "parse_T l :: error + 'a evaluator \<times> char list")
    case (Inl e)
    with f have "(parse_T l :: error + 'a evaluator \<times> char list) = Inl IndexError" by simp
    with assms(1) obtain s1 and a :: "'a evaluator" where s1: "parse_T (l @ s1) = Inr (a, [])"
      unfolding completes_def by blast
    from assms(2) [of a] obtain s2 g where "k a s2 = Inr (g, [])"
      unfolding startable_def by blast
    with parse_T_append [OF s1, of s2]
    have "(case parse_T (l @ s1 @ s2) of Inl e \<Rightarrow> Inl e | Inr (a, l2) \<Rightarrow> k a l2) = Inr (g, [])"
      by simp
    then show ?thesis by blast
  next
    case (Inr p)
    obtain a l2 where p: "p = (a, l2)" by (cases p)
    from f Inr p have "k a l2 = Inl IndexError" by simp
    with assms(3) [OF Inr [unfolded p]] obtain s g where "k a (l2 @ s) = Inr (g, [])"
      unfolding completes_def by blast
    with parse_T_append [OF Inr [unfolded p], of s]
    have "(case parse_T (l @ s) of Inl e \<Rightarrow> Inl e | Inr (a, l2) \<Rightarrow> k a l2) = Inr (g, [])"
      by simp
    then show ?thesis by blast
  qed
qed

lemma completes_parse_B:
  "completes (parse_B :: char list \<Rightarrow> error + ('a::{zero,plus,minus,inverse}) evaluator \<times> char list) l"
  unfolding completes_def
proof
  assume "(parse_B l :: error + 'a evaluator \<times> char list) = Inl IndexError"
  then consider (a) "lexer_next l = Inl IndexError"
    | (b) num lexer1 where "lexer_next l = Inr (num, lexer1)" "peek lexer1 = Inl IndexError"
    unfolding parse_B_Inl by blast
  then show "\<exists>s f. (parse_B (l @ s) :: error + 'a evaluator \<times> char list) = Inr (f, [])"
  proof cases
    case a
    then have "\<forall>w\<in>set l. isspace w" by (simp add: lexer_next_Inl)
    from lexer_next_blank_append [OF this, of "CHR ''0''" "''0''"]
    have "(parse_B (l @ ''00'') :: error + 'a evaluator \<times> char list)
        = Inr (two_digit_fun CHR ''0'' CHR ''0'', [])"
      by (simp add: parse_B_def char_preds)
    then show ?thesis by blast
  next
    case b
    from b(2) have "\<forall>w\<in>set lexer1. isspace w" by (simp add: peek_Inl)
    from peek_blank_append [OF this, of "CHR ''0''" "[]"] lexer_next_append [OF b(1), of "''0''"]
    have "(parse_B (l @ ''0'') :: error + 'a evaluator \<times> char list)
        = Inr (two_digit_fun num CHR ''0'', [])"
      by (simp add: parse_B_def char_preds)
    then show ?thesis by blast
  qed
qed

lemma parse_fun_eqs:
  "parse_I = (\<lambda>lexer.
     case ensure_follows lexer CHR ''('' of Inl e \<Rightarrow> Inl e
      | Inr lexer1 \<Rightarrow>
     (case parse_T lexer1 of Inl e \<Rightarrow> Inl e
      | Inr (val_fst, lexer2) \<Rightarrow>
     (case ensure_follows lexer2 CHR '','' of Inl e \<Rightarrow> Inl e
      | Inr lexer3 \<Rightarrow>
     (case parse_T lexer3 of Inl e \<Rightarrow> Inl e
      | Inr (val_snd, lexer4) \<Rightarrow>
     (case ensure_follows lexer4 CHR '')'' of Inl e \<Rightarrow> Inl e
      | Inr lexer5 \<Rightarrow> Inr (index_fun val_fst val_snd, lexer5))))))"
  "parse_S = (\<lambda>lexer.
     case ensure_follows lexer CHR ''('' of Inl e \<Rightarrow> Inl e
      | Inr lexer1 \<Rightarrow>
     (case parse_T lexer1 of Inl e \<Rightarrow> Inl e
      | Inr (val_fst, lexer2) \<Rightarrow>
     (case ensure_follows lexer2 CHR '','' of Inl e \<Rightarrow> Inl e
      | Inr lexer3 \<Rightarrow>
     (case parse_T lexer3 of Inl e \<Rightarrow> Inl e
      | Inr (val_snd, lexer4) \<Rightarrow>
     (case ensure_follows lexer4 CHR '')'' of Inl e \<Rightarrow> Inl e
      | Inr lexer5 \<Rightarrow> Inr (diff_fun val_fst val_snd, lexer5))))))"
  "parse_R = (\<lambda>lexer.
     case ensure_follows lexer CHR ''('' of Inl e \<Rightarrow> Inl e
      | Inr lexer1 \<Rightarrow>
     (case parse_T lexer1 of Inl e \<Rightarrow> Inl e
      | Inr (val_fst, lexer2) \<Rightarrow>
     (case ensure_follows lexer2 CHR '','' of Inl e \<Rightarrow> Inl e
      | Inr lexer3 \<Rightarrow>
     (case parse_T lexer3 of Inl e \<Rightarrow> Inl e
      | Inr (val_snd, lexer4) \<Rightarrow>
     (case ensure_follows lexer4 CHR '')'' of Inl e \<Rightarrow> Inl e
      | Inr lexer5 \<Rightarrow> Inr (ratio_fun val_fst val_snd, lexer5))))))"
  "parse_D = (\<lambda>lexer.
     case ensure_follows lexer CHR ''('' of Inl e \<Rightarrow> Inl e
      | Inr lexer1 \<Rightarrow>
     (case parse_T lexer1 of Inl e \<Rightarrow> Inl e
      | Inr (val_fst, lexer2) \<Rightarrow>
     (case ensure_follows lexer2 CHR '','' of Inl e \<Rightarrow> Inl e
      | Inr lexer3 \<Rightarrow>
     (case parse_T lexer3 of Inl e \<Rightarrow> Inl e
      | Inr (val_snd, lexer4) \<Rightarrow>
     (case ensure_follows lexer4 CHR '','' of Inl e \<Rightarrow> Inl e
      | Inr lexer5 \<Rightarrow>
     (case parse_T lexer5 of Inl e \<Rightarrow> Inl e
      | Inr (val_thd, lexer6) \<Rightarrow>
     (case ensure_follows lexer6 CHR '')'' of Inl e \<Rightarrow> Inl e
      | Inr lexer7 \<Rightarrow> Inr (sum_over_fun val_fst val_snd val_thd, lexer7))))))))"
  by (rule ext, rule parse_I.simps, rule ext, rule parse_S.simps, rule ext, rule parse_R.simps,
      rule ext, rule parse_D.simps)

lemmas completion_intros = completes_ensure completes_then completes_return
  startable_ensure startable_then startable_return

lemma parse_completes:
  "completes (parse_T :: char list \<Rightarrow> error + ('a::{zero,plus,minus,inverse}) evaluator \<times> char list) l1"
  "completes (parse_I :: char list \<Rightarrow> error + 'a evaluator \<times> char list) l2"
  "completes (parse_S :: char list \<Rightarrow> error + 'a evaluator \<times> char list) l3"
  "completes (parse_R :: char list \<Rightarrow> error + 'a evaluator \<times> char list) l4"
  "completes (parse_D :: char list \<Rightarrow> error + 'a evaluator \<times> char list) l5"
proof (induct l1 and l2 and l3 and l4 and l5
    rule: parse_T_parse_I_parse_S_parse_R_parse_D.induct [where ?'a = 'a])
  case (1 lexer)
  show ?case
    unfolding completes_def
  proof
    assume f: "(parse_T lexer :: error + 'a evaluator \<times> char list) = Inl IndexError"
    show "\<exists>s g. (parse_T (lexer @ s) :: error + 'a evaluator \<times> char list) = Inr (g, [])"
    proof (cases "lexer_next lexer")
      case (Inl e)
      then have "\<forall>w\<in>set lexer. isspace w" by (simp add: lexer_next_Inl)
      from lexer_next_blank_append [OF this, of "CHR ''B''" "''00''"]
      have "(parse_T (lexer @ ''B00'') :: error + 'a evaluator \<times> char list)
          = Inr (two_digit_fun CHR ''0'' CHR ''0'', [])"
        by (simp add: parse_T.simps [of "lexer @ ''B00''"] parse_B_def char_preds)
      then show ?thesis by blast
    next
      case (Inr p)
      obtain ch lexer1 where p: "p = (ch, lexer1)" by (cases p)
      note n = Inr [unfolded p]
      note d = parse_T_dispatch [OF n, where 'a = 'a]
      have d': "(parse_T (lexer @ s) :: error + 'a evaluator \<times> char list) =
        (if ch = CHR ''I'' then parse_I (lexer1 @ s) else if ch = CHR ''S'' then parse_S (lexer1 @ s)
         else if ch = CHR ''R'' then parse_R (lexer1 @ s) else if ch = CHR ''D'' then parse_D (lexer1 @ s)
         else if ch = CHR ''B'' then parse_B (lexer1 @ s) else Inl (KeyError ch))" for s
        by (rule parse_T_dispatch [OF lexer_next_append [OF n]])
      from f d "1" [OF n refl] completes_parse_B [of lexer1, where 'a = 'a]
      have "\<exists>s g. (if ch = CHR ''I'' then parse_I (lexer1 @ s) else if ch = CHR ''S'' then parse_S (lexer1 @ s)
         else if ch = CHR ''R'' then parse_R (lexer1 @ s) else if ch = CHR ''D'' then parse_D (lexer1 @ s)
         else if ch = CHR ''B'' then parse_B (lexer1 @ s) else Inl (KeyError ch))
         = (Inr (g, []) :: error + 'a evaluator \<times> char list)"
        by (auto simp: completes_def split: if_splits)
      then show ?thesis by (simp only: d')
    qed
  qed
next
  case (2 lexer)
  show ?case
    unfolding parse_fun_eqs(1)
    by (intro completion_intros;
        (simp add: isspace_def; fail | (rule "2"; (assumption | rule refl))))
next
  case (3 lexer)
  show ?case
    unfolding parse_fun_eqs(2)
    by (intro completion_intros;
        (simp add: isspace_def; fail | (rule "3"; (assumption | rule refl))))
next
  case (4 lexer)
  show ?case
    unfolding parse_fun_eqs(3)
    by (intro completion_intros;
        (simp add: isspace_def; fail | (rule "4"; (assumption | rule refl))))
next
  case (5 lexer)
  show ?case
    unfolding parse_fun_eqs(4)
    by (intro completion_intros;
        (simp add: isspace_def; fail | (rule "5"; (assumption | rule refl))))
qed

lemma parse_E_loop_completes:
  "parse_E_loop vals lexer = Inl IndexError \<Longrightarrow> \<exists>s fs. parse_E_loop vals (lexer @ s) = Inr fs"
proof (induction vals lexer rule: parse_E_loop.induct)
  case (1 vals lexer)
  from "1.prems" have ne: "lexer \<noteq> []"
    by (subst (asm) parse_E_loop.simps) (simp split: if_splits)
  show ?case
  proof (cases "ensure_follows lexer CHR '';''")
    case (Inl x)
    with "1.prems" ne have "ensure_follows lexer CHR '';'' = Inl IndexError"
      by (subst (asm) parse_E_loop.simps) simp
    then have "\<forall>w\<in>set lexer. isspace w" by (rule ensure_follows_IndexError)
    from ensure_follows_blank_append [OF this, of "CHR '';''" "''B00''"]
      parse_T_B00 [of "[]", where 'a = 'a]
    have "parse_E_loop vals (lexer @ '';B00'') = Inr (vals @ [two_digit_fun CHR ''0'' CHR ''0''])"
      by (subst parse_E_loop.simps) (simp add: isspace_def parse_E_loop.simps [of _ "[]"])
    then show ?thesis by blast
  next
    case l1: (Inr lexer1)
    show ?thesis
    proof (cases "parse_T lexer1 :: error + 'a evaluator \<times> char list")
      case (Inl x)
      with "1.prems" ne l1 have "(parse_T lexer1 :: error + 'a evaluator \<times> char list) = Inl IndexError"
        by (subst (asm) parse_E_loop.simps) simp
      with parse_completes(1) [of lexer1, where 'a = 'a]
      obtain s and f :: "'a evaluator" where s: "parse_T (lexer1 @ s) = Inr (f, [])"
        unfolding completes_def by blast
      from ensure_follows_append [OF l1, of s] s ne
      have "parse_E_loop vals (lexer @ s) = Inr (vals @ [f])"
        by (subst parse_E_loop.simps) (simp add: parse_E_loop.simps [of _ "[]"])
      then show ?thesis by blast
    next
      case (Inr p)
      obtain val lexer2 where p: "p = (val, lexer2)" by (cases p)
      from "1.prems" ne l1 Inr p have "parse_E_loop (vals @ [val]) lexer2 = Inl IndexError"
        by (subst (asm) parse_E_loop.simps) simp
      from "1.IH" [OF ne l1 Inr [unfolded p] refl this]
      obtain s fs where s: "parse_E_loop (vals @ [val]) (lexer2 @ s) = Inr fs" by blast
      from ensure_follows_append [OF l1, of s] parse_T_append [OF Inr [unfolded p], of s] s ne
      have "parse_E_loop vals (lexer @ s) = Inr fs"
        by (subst parse_E_loop.simps) simp
      then show ?thesis by blast
    qed
  qed
qed

lemma parse_E_completes:
  assumes "(parse_E l :: error + ('a::{zero,plus,minus,inverse}) evaluator list) = Inl IndexError"
  shows "\<exists>s fs. (parse_E (l @ s) :: error + 'a evaluator list) = Inr fs"
proof (cases "parse_T l :: error + 'a evaluator \<times> char list")
  case (Inl x)
  with assms have "(parse_T l :: error + 'a evaluator \<times> char list) = Inl IndexError"
    by (simp add: parse_E_def)
  with parse_completes(1) [of l, where 'a = 'a]
  obtain s and f :: "'a evaluator" where "parse_T (l @ s) = Inr (f, [])"
    unfolding completes_def by blast
  then have "parse_E (l @ s) = Inr [f]"
    by (simp add: parse_E_def parse_E_loop.simps [of _ "[]"])
  then show ?thesis by blast
next
  case (Inr p)
  obtain val lexer1 where p: "p = (val, lexer1)" by (cases p)
  from assms Inr p have "parse_E_loop [val] lexer1 = Inl IndexError" by (simp add: parse_E_def)
  from parse_E_loop_completes [OF this] obtain s fs where
    "parse_E_loop [val] (lexer1 @ s) = Inr fs" by blast
  with parse_T_append [OF Inr [unfolded p], of s] have "parse_E (l @ s) = Inr fs"
    by (simp add: parse_E_def)
  then show ?thesis by blast
qed

text \<open>
  C1, amended. For every input string (nested within the interpreter's bound on
  recursion, beyond which Python raises \<open>RecursionError\<close>), construction yields a list of at
  least one closure or fails with one of four exceptions: \<open>SyntaxError\<close> with the expected
  and the actual character, \<open>KeyError\<close>, \<open>ValueError\<close> or \<open>IndexError\<close>, the first three as
  \<open>raised_from\<close> describes them. \<open>IndexError\<close> is raised exactly when the input ends where
  a character is required: an input that fails with \<open>IndexError\<close> is the beginning of a
  formula that compiles, while each of the other exceptions stays the same whatever is
  appended to the input. The input \<open>I(B01,B02\<close> fails with \<open>IndexError\<close> and \<open>X(B01,B02)\<close>
  with \<open>KeyError\<close>; a wrong separator, as in \<open>I(B01;B02)\<close>, fails with \<open>SyntaxError\<close>.
\<close>

theorem construction_outcome:
  "(case (FeatureExtendedExtractor l :: error + ('a::{zero,plus,minus,inverse}) evaluator list) of
      Inr fs \<Rightarrow> fs \<noteq> []
    | Inl e \<Rightarrow> raised_from l e)
   \<and> ((FeatureExtendedExtractor l :: error + 'a evaluator list) = Inl IndexError \<longrightarrow>
        (\<exists>s fs. (FeatureExtendedExtractor (l @ s) :: error + 'a evaluator list) = Inr fs))
   \<and> (\<forall>e s. (FeatureExtendedExtractor l :: error + 'a evaluator list) = Inl e \<longrightarrow> e \<noteq> IndexError \<longrightarrow>
        (FeatureExtendedExtractor (l @ s) :: error + 'a evaluator list) = Inl e)
   \<and> (FeatureExtendedExtractor ''I(B01,B02'' :: error + 'a evaluator list) = Inl IndexError
   \<and> (FeatureExtendedExtractor ''X(B01,B02)'' :: error + 'a evaluator list) = Inl (KeyError CHR ''X'')
   \<and> (FeatureExtendedExtractor ''I(B01;B02)'' :: error + 'a evaluator list)
        = Inl (SyntaxError CHR '','' CHR '';'')
   \<and> (FeatureExtendedExtractor ''S(B1,Bx)'' :: error + 'a evaluator list) = Inl (ValueError CHR ''x'')"
proof -
  have "case (FeatureExtendedExtractor l :: error + 'a evaluator list) of
      Inr fs \<Rightarrow> fs \<noteq> [] | Inl e \<Rightarrow> raised_from l e"
    using parse_E_raised [of l, where 'a = 'a] E_terms_nonempty [OF parse_E_terms, of l, where 'a = 'a]
    by (auto simp: FeatureExtendedExtractor_def split: sum.splits)
  moreover have "(FeatureExtendedExtractor l :: error + 'a evaluator list) = Inl IndexError \<longrightarrow>
        (\<exists>s fs. (FeatureExtendedExtractor (l @ s) :: error + 'a evaluator list) = Inr fs)"
    using parse_E_completes [of l, where 'a = 'a] by (simp add: FeatureExtendedExtractor_def)
  moreover have "\<forall>e s. (FeatureExtendedExtractor l :: error + 'a evaluator list) = Inl e \<longrightarrow>
      e \<noteq> IndexError \<longrightarrow> (FeatureExtendedExtractor (l @ s) :: error + 'a evaluator list) = Inl e"
    using parse_E_append_error [of l, where 'a = 'a] by (simp add: FeatureExtendedExtractor_def)
  moreover have "(FeatureExtendedExtractor ''I(B01,B02'' :: error + 'a evaluator list) = Inl IndexError"
    by (simp add: parse_unfold char_preds)
  moreover have "(FeatureExtendedExtractor ''X(B01,B02)'' :: error + 'a evaluator list)
      = Inl (KeyError CHR ''X'')"
    by (simp add: parse_unfold char_preds)
  moreover have "(FeatureExtendedExtractor ''I(B01;B02)'' :: error + 'a evaluator list)
        = Inl (SyntaxError CHR '','' CHR '';'')"
    by (simp add: parse_unfold char_preds)
  moreover have "(FeatureExtendedExtractor ''S(B1,Bx)'' :: error + 'a evaluator list)
      = Inl (ValueError CHR ''x'')"
    by (simp add: parse_unfold char_preds)
  ultimately show ?thesis by blast
qed

theorem construction_outcome_witness:
  "(FeatureExtendedExtractor ''R(B02,B03]'' :: error + real evaluator list)
     = Inl (SyntaxError CHR '')'' CHR '']'')
   \<and> raised_from ''R(B02,B03]'' (SyntaxError CHR '')'' CHR '']'')
   \<and> (FeatureExtendedExtractor ''R(B02,B03])'' :: error + real evaluator list)
     = Inl (SyntaxError CHR '')'' CHR '']'')
   \<and> (FeatureExtendedExtractor ''R(B02,'' :: error + real evaluator list) = Inl IndexError
   \<and> (\<exists>s fs. (FeatureExtendedExtractor (''R(B02,'' @ s) :: error + real evaluator list) = Inr fs)"
proof -
  have h: "(FeatureExtendedExtractor ''R(B02,B03]'' :: error + real evaluator list)
     = Inl (SyntaxError CHR '')'' CHR '']'')"
    by (simp add: parse_unfold char_preds)
  have i: "(FeatureExtendedExtractor ''R(B02,'' :: error + real evaluator list) = Inl IndexError"
    by (simp add: parse_unfold char_preds)
  from construction_outcome [of "''R(B02,B03]''", where 'a = real] h
  have a: "raised_from ''R(B02,B03]'' (SyntaxError CHR '')'' CHR '']'')"
    and b: "(FeatureExtendedExtractor (''R(B02,B03]'' @ '')'') :: error + real evaluator list)
     = Inl (SyntaxError CHR '')'' CHR '']'')"
    by (simp_all del: raised_from.simps)
  from construction_outcome [of "''R(B02,''", where 'a = real] i
  have c: "\<exists>s fs. (FeatureExtendedExtractor (''R(B02,'' @ s) :: error + real evaluator list) = Inr fs"
    by blast
  from h a b i c show ?thesis by simp
qed

section \<open>C2: the band labels of the declared domain\<close>

lemma band_index_cases:
  assumes "band_index label = Some i"
  shows "(label, i) \<in> set [(''1'', 0), (''2'', 1), (''3'', 2), (''4'', 3), (''5'', 4), (''6'', 5),
      (''7'', 6), (''8'', 7), (''8A'', 8), (''8a'', 8), (''9'', 9), (''10'', 10), (''11'', 11),
      (''12'', 12)]"
  using assms unfolding band_index_def by (rule map_of_SomeD)

lemma band_index_disj:
  assumes "band_index label = Some i"
  shows "label = ''1'' \<and> i = 0 \<or> label = ''2'' \<and> i = 1 \<or> label = ''3'' \<and> i = 2
    \<or> label = ''4'' \<and> i = 3 \<or> label = ''5'' \<and> i = 4 \<or> label = ''6'' \<and> i = 5
    \<or> label = ''7'' \<and> i = 6 \<or> label = ''8'' \<and> i = 7 \<or> label = ''8A'' \<and> i = 8
    \<or> label = ''8a'' \<and> i = 8 \<or> label = ''9'' \<and> i = 9 \<or> label = ''10'' \<and> i = 10
    \<or> label = ''11'' \<and> i = 11 \<or> label = ''12'' \<and> i = 12"
  using band_index_cases [OF assms] by (simp only: list.set insert_iff empty_iff prod.inject simp_thms)

lemma band_index_nonneg: "band_index label = Some i \<Longrightarrow> 0 \<le> i"
  using band_index_disj [of label i] by auto

lemma band_index_parse:
  assumes "band_index label = Some i"
  shows "(length label = 2 \<longrightarrow>
           (\<exists>f. (parse_T (CHR ''B'' # label @ rest)
                   :: error + ('a::{zero,plus,minus,inverse}) evaluator \<times> char list) = Inr (f, rest)
              \<and> (\<forall>x. f x = getitem x i)))
       \<and> (length label = 1 \<longrightarrow> peek rest = Inr (c, rest') \<longrightarrow> \<not> isdigit c \<longrightarrow> \<not> lower_is_a c \<longrightarrow>
           (\<exists>f. (parse_T (CHR ''B'' # label @ rest)
                   :: error + 'a evaluator \<times> char list) = Inr (f, rest')
              \<and> (\<forall>x. f x = getitem x i)))"
  using band_index_disj [OF assms]
  apply (elim disjE conjE)
  apply (simp_all add: parse_T_band parse_B_def char_preds two_digit_fun_def band_8a_fun_def
      one_digit_fun_def)
  done

text \<open>
  C2. For every label of the declared domain, the evaluator that the band production builds
  reads exactly the offset \<open>i\<close> of the table: it returns the element at position \<open>i\<close> of a
  vector that has one, counted from 0, and raises \<open>IndexError\<close> on a shorter vector. A
  two-character label is complete as it stands. A one-character label is the whole label
  when the next character that the lexer sees is neither a digit nor \<open>a\<close>/\<open>A\<close> (a following
  digit or letter would make it a two-character label); that character stays in the stream.
\<close>

theorem band_index_mapping:
  assumes "band_index label = Some i"
  shows "(length label = 2 \<longrightarrow>
           (\<exists>f. (parse_T (CHR ''B'' # label @ rest)
                   :: error + ('a::{zero,plus,minus,inverse}) evaluator \<times> char list) = Inr (f, rest)
              \<and> (\<forall>x. f x = getitem x i)
              \<and> (\<forall>x. f x = (if nat i < length x then Inr (x ! nat i) else Inl IndexError))))
       \<and> (length label = 1 \<longrightarrow> peek rest = Inr (c, rest') \<longrightarrow> \<not> isdigit c \<longrightarrow> \<not> lower_is_a c \<longrightarrow>
           (\<exists>f. (parse_T (CHR ''B'' # label @ rest)
                   :: error + 'a evaluator \<times> char list) = Inr (f, rest')
              \<and> (\<forall>x. f x = getitem x i)
              \<and> (\<forall>x. f x = (if nat i < length x then Inr (x ! nat i) else Inl IndexError))))"
proof -
  note nn = getitem_nonneg [OF band_index_nonneg [OF assms]]
  note p = band_index_parse [OF assms, of rest c rest', where 'a = 'a]
  show ?thesis
  proof (intro conjI impI)
    assume "length label = 2"
    with p obtain f where
      "(parse_T (CHR ''B'' # label @ rest) :: error + 'a evaluator \<times> char list) = Inr (f, rest)"
      "\<forall>x. f x = getitem x i"
      by blast
    then show "\<exists>f. (parse_T (CHR ''B'' # label @ rest) :: error + 'a evaluator \<times> char list)
        = Inr (f, rest) \<and> (\<forall>x. f x = getitem x i)
        \<and> (\<forall>x. f x = (if nat i < length x then Inr (x ! nat i) else Inl IndexError))"
      by (simp add: nn)
  next
    assume "length label = 1" "peek rest = Inr (c, rest')" "\<not> isdigit c" "\<not> lower_is_a c"
    with p obtain f where
      "(parse_T (CHR ''B'' # label @ rest) :: error + 'a evaluator \<times> char list) = Inr (f, rest')"
      "\<forall>x. f x = getitem x i"
      by blast
    then show "\<exists>f. (parse_T (CHR ''B'' # label @ rest) :: error + 'a evaluator \<times> char list)
        = Inr (f, rest') \<and> (\<forall>x. f x = getitem x i)
        \<and> (\<forall>x. f x = (if nat i < length x then Inr (x ! nat i) else Inl IndexError))"
      by (simp add: nn)
  qed
qed

theorem band_index_mapping_witness:
  "band_index ''9'' = Some 9 \<and> band_index ''8A'' = Some 8
   \<and> peek '',B8A)'' = Inr (CHR '','', '',B8A)'') \<and> \<not> isdigit CHR '','' \<and> \<not> lower_is_a CHR '',''
   \<and> (\<exists>f. (parse_T ''B9,B8A)'' :: error + real evaluator \<times> char list) = Inr (f, '',B8A)'')
         \<and> f [0, 1, 2, 3, 4, 5, 6, 7, 8, 9, 10, 11, 12] = Inr 9
         \<and> f [0, 1, 2, 3, 4, 5, 6, 7, 8] = Inl IndexError)
   \<and> (\<exists>f. (parse_T ''B8A)'' :: error + real evaluator \<times> char list) = Inr (f, '')'')
         \<and> f [0, 1, 2, 3, 4, 5, 6, 7, 8, 9, 10, 11, 12] = Inr 8
         \<and> f [0, 1, 2, 3, 4, 5, 6, 7] = Inl IndexError)"
proof -
  have h: "band_index ''9'' = Some 9" "band_index ''8A'' = Some 8"
    by (simp_all add: band_index_def)
  have n: "peek '',B8A)'' = Inr (CHR '','', '',B8A)'')" "\<not> isdigit CHR '',''" "\<not> lower_is_a CHR '',''"
    by (simp_all add: char_preds)
  from band_index_mapping [OF h(1), of "'',B8A)''" "CHR '',''" "'',B8A)''", where 'a = real] n
  obtain f where f: "(parse_T ''B9,B8A)'' :: error + real evaluator \<times> char list) = Inr (f, '',B8A)'')"
    "\<forall>x. f x = (if nat 9 < length x then Inr (x ! nat 9) else Inl IndexError)"
    by auto
  from band_index_mapping [OF h(2), of "'')''", where 'a = real]
  obtain g where g: "(parse_T ''B8A)'' :: error + real evaluator \<times> char list) = Inr (g, '')'')"
    "\<forall>x. g x = (if nat 8 < length x then Inr (x ! nat 8) else Inl IndexError)"
    by auto
  have a: "\<exists>f. (parse_T ''B9,B8A)'' :: error + real evaluator \<times> char list) = Inr (f, '',B8A)'')
         \<and> f [0, 1, 2, 3, 4, 5, 6, 7, 8, 9, 10, 11, 12] = Inr 9
         \<and> f [0, 1, 2, 3, 4, 5, 6, 7, 8] = Inl IndexError"
    using f by (intro exI [of _ f]) simp
  have b: "\<exists>f. (parse_T ''B8A)'' :: error + real evaluator \<times> char list) = Inr (f, '')'')
         \<and> f [0, 1, 2, 3, 4, 5, 6, 7, 8, 9, 10, 11, 12] = Inr 8
         \<and> f [0, 1, 2, 3, 4, 5, 6, 7] = Inl IndexError"
    using g by (intro exI [of _ g]) simp
  show ?thesis
    using h n a b by (intro conjI)
qed

section \<open>C3: the formula \<open>I(B08,B04)\<close>\<close>

text \<open>
  C3. The claim is that \<open>I(B08,B04)\<close> combines the elements at offsets 7 and 3. The labels
  \<open>08\<close> and \<open>04\<close> have two digits, so the production takes its two-digit branch and the
  closures read offsets \<open>10 * 0 + 8 = 8\<close> and \<open>10 * 0 + 4 = 4\<close>: on a vector with 0.6 at
  offset 7, 0.2 at offset 3, 1 at offset 8 and 0 at offset 4 the formula yields
  \<open>(1 - 0) / (1 + 0) = 1\<close>, not 0.5. The one-digit branch does subtract one (\<open>B8\<close> reads
  offset 7), and \<open>B08\<close> reads the offset that \<open>B8A\<close> reads.
\<close>

theorem ndvi_formula_reads_offsets_8_and_4:
  "(FeatureExtendedExtractor ''I(B08,B04)'' :: error + real evaluator list)
     = Inr [index_fun (two_digit_fun CHR ''0'' CHR ''8'') (two_digit_fun CHR ''0'' CHR ''4'')]
   \<and> extractor_call [index_fun (two_digit_fun CHR ''0'' CHR ''8'') (two_digit_fun CHR ''0'' CHR ''4'')]
        [0, 0, 0, 0.2, 0, 0, 0, 0.6, 1, 0, 0, 0, 0 :: real] = Inr [1]"
  by (simp add: parse_unfold char_preds index_fun_def two_digit_fun_def getitem_def truediv_def)

section \<open>C4: what the operator nodes compute\<close>




section \<open>C5: one result per term, in order\<close>

text \<open>
  C5. When a formula consists of the terms \<open>fs\<close> in this order (\<open>n\<close> terms separated by
  \<open>n - 1\<close> semicolons), the constructor returns exactly \<open>fs\<close>, and a call on a vector \<open>x\<close>
  returns \<open>ys\<close> if and only if \<open>ys\<close> has the length of \<open>fs\<close> and its \<open>i\<close>-th element is the
  value of the \<open>i\<close>-th term on \<open>x\<close>. The call does return whenever every term has a value on
  \<open>x\<close>; a term that raises (an offset outside the vector) ends the call.
\<close>

theorem invoke_one_result_per_term:
  assumes "E_terms l fs"
  shows "FeatureExtendedExtractor l = Inr fs
    \<and> (\<forall>x ys. extractor_call fs x = Inr ys \<longleftrightarrow>
          length ys = length fs \<and> (\<forall>i<length fs. (fs ! i) x = Inr (ys ! i)))
    \<and> (\<forall>x. (\<forall>i<length fs. \<exists>v. (fs ! i) x = Inr v) \<longrightarrow> (\<exists>ys. extractor_call fs x = Inr ys))"
  using E_terms_parse_E [OF assms] extractor_call_Inr [of fs] extractor_call_returns [of fs]
  by (simp add: FeatureExtendedExtractor_def)

theorem invoke_one_result_per_term_witness:
  "E_terms ''B01;B02;I(B01,B02)''
     [two_digit_fun CHR ''0'' CHR ''1'', two_digit_fun CHR ''0'' CHR ''2'',
      index_fun (two_digit_fun CHR ''0'' CHR ''1'') (two_digit_fun CHR ''0'' CHR ''2'') :: real evaluator]
   \<and> (FeatureExtendedExtractor ''B01;B02;I(B01,B02)'' :: error + real evaluator list)
       = Inr [two_digit_fun CHR ''0'' CHR ''1'', two_digit_fun CHR ''0'' CHR ''2'',
              index_fun (two_digit_fun CHR ''0'' CHR ''1'') (two_digit_fun CHR ''0'' CHR ''2'')]
   \<and> extractor_call
        [two_digit_fun CHR ''0'' CHR ''1'', two_digit_fun CHR ''0'' CHR ''2'',
         index_fun (two_digit_fun CHR ''0'' CHR ''1'') (two_digit_fun CHR ''0'' CHR ''2'')]
        [10, 20, 30 :: real] = Inr [20, 30, - 1 / 5]"
proof -
  have t3: "E_terms ''I(B01,B02)''
     [index_fun (two_digit_fun CHR ''0'' CHR ''1'') (two_digit_fun CHR ''0'' CHR ''2'') :: real evaluator]"
    by (rule E_terms.single) (simp add: parse_unfold char_preds)
  have t2: "E_terms ''B02;I(B01,B02)''
     [two_digit_fun CHR ''0'' CHR ''2'',
      index_fun (two_digit_fun CHR ''0'' CHR ''1'') (two_digit_fun CHR ''0'' CHR ''2'') :: real evaluator]"
    by (rule E_terms.followed [where r = "'';I(B01,B02)''", OF _ _ _ t3])
       (simp_all add: parse_unfold char_preds)
  have t1: "E_terms ''B01;B02;I(B01,B02)''
     [two_digit_fun CHR ''0'' CHR ''1'', two_digit_fun CHR ''0'' CHR ''2'',
      index_fun (two_digit_fun CHR ''0'' CHR ''1'') (two_digit_fun CHR ''0'' CHR ''2'') :: real evaluator]"
    by (rule E_terms.followed [where r = "'';B02;I(B01,B02)''", OF _ _ _ t2])
       (simp_all add: parse_unfold char_preds)
  have c: "extractor_call
        [two_digit_fun CHR ''0'' CHR ''1'', two_digit_fun CHR ''0'' CHR ''2'',
         index_fun (two_digit_fun CHR ''0'' CHR ''1'') (two_digit_fun CHR ''0'' CHR ''2'')]
        [10, 20, 30 :: real] = Inr [20, 30, - 1 / 5]"
    by (simp add: two_digit_fun_def index_fun_def py_int_def getitem_def truediv_def)
  show ?thesis
    using t1 c invoke_one_result_per_term [OF t1] by simp
qed

section \<open>C6: labels outside the declared domain\<close>

text \<open>
  C6, as stated. The claim is that every label outside the declared domain fails to compile, \<open>B00\<close> with
  an unknown-band-label error. The band production has no table and no such error: any
  character followed by a digit is a two-digit label, so \<open>B00\<close> compiles.
\<close>

theorem unknown_label_counterexample:
  "(FeatureExtendedExtractor ''B00'' :: error + real evaluator list)
     = Inr [two_digit_fun CHR ''0'' CHR ''0'']"
  by (simp add: parse_unfold char_preds)

text \<open>
  C6, amended. The band production fails in exactly two ways. It raises \<open>IndexError\<close> when
  the stream holds no character for \<open>num\<close>, or none after it for \<open>peek\<close>. It raises
  \<open>ValueError\<close> when the character after \<open>num\<close> is neither a digit nor \<open>a\<close>/\<open>A\<close> and \<open>num\<close>
  is not a decimal digit, so that \<open>int(num)\<close> fails while the closure is built. Every other
  label compiles, in the declared domain or not.
\<close>

theorem parse_B_failure:
  "(parse_B l :: error + ('a::{zero,plus,minus,inverse}) evaluator \<times> char list) = Inl e \<longleftrightarrow>
     e = IndexError \<and>
       (lexer_next l = Inl IndexError
        \<or> (\<exists>num lexer1. lexer_next l = Inr (num, lexer1) \<and> peek lexer1 = Inl IndexError))
     \<or> (\<exists>num lexer1 nxt lexer2.
          lexer_next l = Inr (num, lexer1) \<and> peek lexer1 = Inr (nxt, lexer2)
          \<and> \<not> isdigit nxt \<and> nxt \<noteq> CHR ''a'' \<and> nxt \<noteq> CHR ''A''
          \<and> num \<notin> set ''0123456789'' \<and> e = ValueError num)"
  by (rule parse_B_Inl)

theorem parse_B_failure_witness:
  "(parse_B ''x,'' :: error + real evaluator \<times> char list) = Inl (ValueError CHR ''x'')
   \<and> (parse_B ''7'' :: error + real evaluator \<times> char list) = Inl IndexError
   \<and> (\<exists>f. (parse_B ''xA,'' :: error + real evaluator \<times> char list) = Inr (f, '',''))"
proof -
  have "(parse_B ''x,'' :: error + real evaluator \<times> char list) = Inl (ValueError CHR ''x'')"
    using parse_B_failure [of "''x,''" "ValueError CHR ''x''", where 'a = real]
    by (simp add: char_preds)
  moreover have "(parse_B ''7'' :: error + real evaluator \<times> char list) = Inl IndexError"
    using parse_B_failure [of "''7''" IndexError, where 'a = real]
    by (simp add: char_preds)
  moreover have "\<exists>f. (parse_B ''xA,'' :: error + real evaluator \<times> char list) = Inr (f, '','')"
    by (simp add: parse_B_def char_preds)
  ultimately show ?thesis by blast
qed

section \<open>C7: white space\<close>

text \<open>
  C7, as stated. The claim is that white space may be added anywhere in a formula that compiles, also at
  its end. Every \<open>next\<close> and \<open>peek\<close> of the lexer skips white space, but the loop of
  \<open>parse_E\<close> tests \<open>while lexer\<close> on the list as it is: white space after the last term
  keeps the list non-empty, the loop asks for \<open>;\<close>, and \<open>skip_whitespace\<close> runs off the end
  of the list. \<open>squeeze\<close> removes the white space of a string; two strings with the same
  \<open>squeeze\<close> differ by white space only.
\<close>

lemma squeeze_simps [simp]:
  "squeeze [] = []"
  "squeeze (c # cs) = (if isspace c then squeeze cs else c # squeeze cs)"
  by (simp_all add: squeeze_def)

lemma squeezed_simps [simp]:
  "squeezed (Inl e) = Inl e"
  "squeezed (Inr (f, r)) = Inr (f, squeeze r)"
  by (simp_all add: squeezed_def)

lemma lexer_next_squeeze: "lexer_next (squeeze l) = squeezed (lexer_next l)"
  by (induction l) simp_all

lemma peek_squeeze: "peek (squeeze l) = squeezed (peek l)"
  by (induction l) simp_all

lemma ensure_follows_squeeze:
  "ensure_follows (squeeze l) c =
     (case ensure_follows l c of Inl e \<Rightarrow> Inl e | Inr r \<Rightarrow> Inr (squeeze r))"
  by (induction l) simp_all

lemma parse_B_squeeze:
  "(parse_B (squeeze l) :: error + ('a::{zero,plus,minus,inverse}) evaluator \<times> char list)
     = squeezed (parse_B l)"
proof (cases "lexer_next l")
  case (Inl e)
  then show ?thesis by (simp add: parse_B_def lexer_next_squeeze)
next
  case (Inr p)
  obtain num lexer1 where p: "p = (num, lexer1)" by (cases p)
  show ?thesis
  proof (cases "peek lexer1")
    case (Inl e)
    with Inr p show ?thesis by (simp add: parse_B_def lexer_next_squeeze peek_squeeze)
  next
    case q: (Inr q)
    obtain nxt lexer2 where qq: "q = (nxt, lexer2)" by (cases q)
    from q qq obtain t where t: "lexer2 = nxt # t" "\<not> isspace nxt"
      using peek_not_space by blast
    with Inr p q qq show ?thesis
      by (simp add: parse_B_def lexer_next_squeeze peek_squeeze split: sum.splits)
  qed
qed

lemma squeezed_ensure:
  assumes "\<And>l1. ensure_follows l c = Inr l1 \<Longrightarrow> k (squeeze l1) = squeezed (k l1)"
  shows "(case ensure_follows (squeeze l) c of Inl e \<Rightarrow> Inl e | Inr l1 \<Rightarrow> k l1)
    = squeezed (case ensure_follows l c of Inl e \<Rightarrow> Inl e | Inr l1 \<Rightarrow> k l1)"
  using assms by (cases "ensure_follows l c") (simp_all add: ensure_follows_squeeze)

lemma squeezed_then:
  assumes "pT (squeeze l) = squeezed (pT l)"
    and "\<And>a l2. pT l = Inr (a, l2) \<Longrightarrow> k a (squeeze l2) = squeezed (k a l2)"
  shows "(case pT (squeeze l) of Inl e \<Rightarrow> Inl e | Inr (a, l2) \<Rightarrow> k a l2)
    = squeezed (case pT l of Inl e \<Rightarrow> Inl e | Inr (a, l2) \<Rightarrow> k a l2)"
proof (cases "pT l")
  case (Inl e)
  with assms(1) show ?thesis by simp
next
  case (Inr p)
  obtain a l2 where p: "p = (a, l2)" by (cases p)
  with assms(1) assms(2) [OF Inr [unfolded p]] Inr show ?thesis by simp
qed

lemma squeezed_return: "Inr (f, squeeze l) = squeezed (Inr (f, l))"
  by simp

lemma parse_squeeze:
  "(parse_T (squeeze l1) :: error + ('a::{zero,plus,minus,inverse}) evaluator \<times> char list)
     = squeezed (parse_T l1)"
  "(parse_I (squeeze l2) :: error + 'a evaluator \<times> char list) = squeezed (parse_I l2)"
  "(parse_S (squeeze l3) :: error + 'a evaluator \<times> char list) = squeezed (parse_S l3)"
  "(parse_R (squeeze l4) :: error + 'a evaluator \<times> char list) = squeezed (parse_R l4)"
  "(parse_D (squeeze l5) :: error + 'a evaluator \<times> char list) = squeezed (parse_D l5)"
proof (induct l1 and l2 and l3 and l4 and l5
    rule: parse_T_parse_I_parse_S_parse_R_parse_D.induct [where ?'a = 'a])
  case (1 lexer)
  show ?case
  proof (cases "lexer_next lexer")
    case (Inl e)
    then show ?thesis
      by (simp add: parse_T.simps [of lexer] parse_T.simps [of "squeeze lexer"] lexer_next_squeeze)
  next
    case (Inr p)
    obtain ch lexer1 where p: "p = (ch, lexer1)" by (cases p)
    note n = Inr [unfolded p]
    from n have n': "lexer_next (squeeze lexer) = Inr (ch, squeeze lexer1)"
      by (simp add: lexer_next_squeeze)
    show ?thesis
      using "1" [OF n refl] parse_B_squeeze [of lexer1, where 'a = 'a]
      by (simp add: parse_T_dispatch [OF n] parse_T_dispatch [OF n'])
  qed
next
  case (2 lexer)
  show ?case
    unfolding parse_I.simps [of lexer] parse_I.simps [of "squeeze lexer"]
    by (intro squeezed_ensure squeezed_then [where pT = parse_T] squeezed_return;
        (rule "2"; (assumption | rule refl)))
next
  case (3 lexer)
  show ?case
    unfolding parse_S.simps [of lexer] parse_S.simps [of "squeeze lexer"]
    by (intro squeezed_ensure squeezed_then [where pT = parse_T] squeezed_return;
        (rule "3"; (assumption | rule refl)))
next
  case (4 lexer)
  show ?case
    unfolding parse_R.simps [of lexer] parse_R.simps [of "squeeze lexer"]
    by (intro squeezed_ensure squeezed_then [where pT = parse_T] squeezed_return;
        (rule "4"; (assumption | rule refl)))
next
  case (5 lexer)
  show ?case
    unfolding parse_D.simps [of lexer] parse_D.simps [of "squeeze lexer"]
    by (intro squeezed_ensure squeezed_then [where pT = parse_T] squeezed_return;
        (rule "5"; (assumption | rule refl)))
qed

lemma squeeze_empty: "squeeze r = [] \<longleftrightarrow> (\<forall>c\<in>set r. isspace c)"
  by (induction r) simp_all

lemma clean_end_squeeze: "clean_end r \<Longrightarrow> squeeze r = [] \<longleftrightarrow> r = []"
proof -
  assume c: "clean_end r"
  have "r = []" if "squeeze r = []"
  proof (rule ccontr)
    assume "r \<noteq> []"
    with c have "last r \<in> set r" "\<not> isspace (last r)" by (simp_all add: clean_end_def)
    with that show False by (auto simp: squeeze_empty)
  qed
  then show ?thesis by auto
qed

lemma parse_E_loop_squeeze:
  "clean_end lexer \<Longrightarrow> parse_E_loop vals (squeeze lexer) = parse_E_loop vals lexer"
proof (induction vals lexer rule: parse_E_loop.induct)
  case (1 vals lexer)
  show ?case
  proof (cases "lexer = []")
    case True
    then show ?thesis by simp
  next
    case False
    with "1.prems" have ne: "squeeze lexer \<noteq> []" by (simp add: clean_end_squeeze)
    show ?thesis
    proof (cases "ensure_follows lexer CHR '';''")
      case (Inl e)
      with False ne show ?thesis
        by (simp add: parse_E_loop.simps [of _ lexer] parse_E_loop.simps [of _ "squeeze lexer"]
            ensure_follows_squeeze)
    next
      case l1: (Inr lexer1)
      note c1 = consumed_clean [OF ensure_follows_consumed [OF l1] "1.prems"]
      show ?thesis
      proof (cases "parse_T lexer1 :: error + 'a evaluator \<times> char list")
        case (Inl e)
        with False ne l1 show ?thesis
          by (simp add: parse_E_loop.simps [of _ lexer] parse_E_loop.simps [of _ "squeeze lexer"]
              ensure_follows_squeeze parse_squeeze(1))
      next
        case (Inr p)
        obtain val lexer2 where p: "p = (val, lexer2)" by (cases p)
        note c2 = consumed_clean [OF parse_T_consumed [OF Inr [unfolded p]] c1]
        from "1.IH" [OF False l1 Inr [unfolded p] refl c2] False ne l1 Inr p show ?thesis
          by (simp add: parse_E_loop.simps [of _ lexer] parse_E_loop.simps [of _ "squeeze lexer"]
              ensure_follows_squeeze parse_squeeze(1))
      qed
    qed
  qed
qed

lemma parse_E_squeeze:
  assumes "clean_end l"
  shows "(parse_E (squeeze l) :: error + ('a::{zero,plus,minus,inverse}) evaluator list) = parse_E l"
proof (cases "parse_T l :: error + 'a evaluator \<times> char list")
  case (Inl e)
  then show ?thesis by (simp add: parse_E_def parse_squeeze(1))
next
  case (Inr p)
  obtain val lexer1 where p: "p = (val, lexer1)" by (cases p)
  from consumed_clean [OF parse_T_consumed [OF Inr [unfolded p]] assms]
  have "parse_E_loop [val] (squeeze lexer1) = parse_E_loop [val] lexer1"
    by (rule parse_E_loop_squeeze)
  with Inr p show ?thesis by (simp add: parse_E_def parse_squeeze(1))
qed

lemma parse_E_loop_unclean:
  "\<not> clean_end lexer \<Longrightarrow> parse_E_loop vals (squeeze lexer) = Inr fs \<Longrightarrow>
   parse_E_loop vals lexer = Inl IndexError"
proof (induction vals lexer rule: parse_E_loop.induct)
  case (1 vals lexer)
  from "1.prems"(1) have ne: "lexer \<noteq> []" by (auto simp: clean_end_def)
  show ?case
  proof (cases "squeeze lexer = []")
    case True
    then have "lexer_next lexer = Inl IndexError" by (simp add: squeeze_empty lexer_next_Inl)
    then have "ensure_follows lexer CHR '';'' = Inl IndexError" by (simp add: ensure_follows_Inl)
    with ne show ?thesis by (simp add: parse_E_loop.simps [of _ lexer])
  next
    case False
    with "1.prems"(2) obtain lexer1 where l1: "ensure_follows lexer CHR '';'' = Inr lexer1"
      by (subst (asm) parse_E_loop.simps) (auto simp: ensure_follows_squeeze split: sum.splits)
    with False "1.prems"(2) obtain val lexer2 where
      p: "(parse_T lexer1 :: error + 'a evaluator \<times> char list) = Inr (val, lexer2)"
      by (subst (asm) parse_E_loop.simps)
         (auto simp: ensure_follows_squeeze parse_squeeze(1) squeezed_def split: sum.splits)
    with False l1 "1.prems"(2) have r: "parse_E_loop (vals @ [val]) (squeeze lexer2) = Inr fs"
      by (subst (asm) parse_E_loop.simps) (simp add: ensure_follows_squeeze parse_squeeze(1))
    from consumed_unclean [OF ensure_follows_consumed [OF l1] "1.prems"(1)]
    have "\<not> clean_end lexer1" by simp
    with consumed_unclean [OF parse_T_consumed [OF p]] have "\<not> clean_end lexer2" by simp
    from "1.IH" [OF ne l1 p refl this r] ne l1 p show ?thesis
      by (simp add: parse_E_loop.simps [of _ lexer])
  qed
qed

lemma parse_E_unclean:
  assumes "\<not> clean_end l"
    and "(parse_E (squeeze l) :: error + ('a::{zero,plus,minus,inverse}) evaluator list) = Inr fs"
  shows "(parse_E l :: error + 'a evaluator list) = Inl IndexError"
proof -
  from assms(2) obtain val lexer1 where
    p: "(parse_T l :: error + 'a evaluator \<times> char list) = Inr (val, lexer1)"
    by (auto simp: parse_E_def parse_squeeze(1) squeezed_def split: sum.splits)
  with assms(2) have "parse_E_loop [val] (squeeze lexer1) = Inr fs"
    by (simp add: parse_E_def parse_squeeze(1))
  moreover from consumed_unclean [OF parse_T_consumed [OF p] assms(1)]
  have "\<not> clean_end lexer1" by simp
  ultimately have "parse_E_loop [val] lexer1 = Inl IndexError"
    by (intro parse_E_loop_unclean)
  with p show ?thesis by (simp add: parse_E_def)
qed

lemma consumed_clean_back: "consumed l r \<Longrightarrow> clean_end r \<Longrightarrow> clean_end l"
  by (cases "r = []") (auto simp: consumed_def clean_end_def)

lemma parse_E_loop_clean_end: "parse_E_loop vals lexer = Inr fs \<Longrightarrow> clean_end lexer"
proof (induction vals lexer rule: parse_E_loop.induct)
  case (1 vals lexer)
  show ?case
  proof (cases "lexer = []")
    case True
    then show ?thesis by (simp add: clean_end_def)
  next
    case False
    with "1.prems" obtain lexer1 val lexer2 where
      s: "ensure_follows lexer CHR '';'' = Inr lexer1" "parse_T lexer1 = Inr (val, lexer2)"
        "parse_E_loop (vals @ [val]) lexer2 = Inr fs"
      by (subst (asm) parse_E_loop.simps) (auto split: sum.splits)
    from "1.IH" [OF False s(1) s(2) refl s(3)] have "clean_end lexer2" .
    with parse_T_consumed [OF s(2)] have "clean_end lexer1" by (rule consumed_clean_back)
    with ensure_follows_consumed [OF s(1)] show ?thesis by (rule consumed_clean_back)
  qed
qed

lemma compiles_clean_end:
  assumes "(parse_E l :: error + ('a::{zero,plus,minus,inverse}) evaluator list) = Inr fs"
  shows "clean_end l"
proof -
  from assms obtain val lexer1 where
    s: "parse_T l = Inr (val, lexer1)" "parse_E_loop [val] lexer1 = Inr fs"
    by (auto simp: parse_E_def split: sum.splits)
  from parse_T_consumed [OF s(1)] parse_E_loop_clean_end [OF s(2)] show ?thesis
    by (rule consumed_clean_back)
qed

text \<open>
  C7, as the code has it. Let \<open>l\<close> compile to the closures \<open>fs\<close>, and let \<open>l'\<close> have the
  characters of \<open>l\<close> that are not white space, in the same order (white space inserted or
  removed anywhere). If \<open>l'\<close> does not end in white space it compiles to the same \<open>fs\<close>; if
  it does, construction raises \<open>IndexError\<close>. So white space is transparent everywhere but
  at the end, where the claim fails: \<open>B01\<close> compiles and \<open>B01\<close> followed by a blank does
  not.
\<close>

theorem whitespace_transparent_except_at_end:
  assumes "(FeatureExtendedExtractor l :: error + ('a::{zero,plus,minus,inverse}) evaluator list) = Inr fs"
    and "squeeze l' = squeeze l"
  shows "(FeatureExtendedExtractor l' :: error + 'a evaluator list)
     = (if clean_end l' then Inr fs else Inl IndexError)"
proof -
  from assms(1) have c: "(parse_E l :: error + 'a evaluator list) = Inr fs"
    by (simp add: FeatureExtendedExtractor_def)
  from parse_E_squeeze [OF compiles_clean_end [OF c], where 'a = 'a] c assms(2)
  have s: "(parse_E (squeeze l') :: error + 'a evaluator list) = Inr fs" by simp
  show ?thesis
  proof (cases "clean_end l'")
    case True
    from parse_E_squeeze [OF True, where 'a = 'a] s True show ?thesis
      by (simp add: FeatureExtendedExtractor_def)
  next
    case False
    from parse_E_unclean [OF False s] False show ?thesis
      by (simp add: FeatureExtendedExtractor_def)
  qed
qed

theorem whitespace_transparent_except_at_end_witness:
  "(FeatureExtendedExtractor ''B01'' :: error + real evaluator list)
     = Inr [two_digit_fun CHR ''0'' CHR ''1'']
   \<and> squeeze '' B 0 1'' = squeeze ''B01'' \<and> squeeze ''B01 '' = squeeze ''B01''
   \<and> (FeatureExtendedExtractor '' B 0 1'' :: error + real evaluator list)
     = Inr [two_digit_fun CHR ''0'' CHR ''1'']
   \<and> (FeatureExtendedExtractor ''B01 '' :: error + real evaluator list) = Inl IndexError"
proof -
  have h: "(FeatureExtendedExtractor ''B01'' :: error + real evaluator list)
     = Inr [two_digit_fun CHR ''0'' CHR ''1'']"
    by (simp add: parse_unfold char_preds)
  have s: "squeeze '' B 0 1'' = squeeze ''B01''" "squeeze ''B01 '' = squeeze ''B01''"
    by (simp_all add: isspace_def)
  show ?thesis
    using h s whitespace_transparent_except_at_end [OF h s(1)]
      whitespace_transparent_except_at_end [OF h s(2)]
    by (simp add: clean_end_def isspace_def)
qed

section \<open>C8: a band term at the end of the input\<close>

text \<open>
  C8, as stated. The claim speaks of every string whose last two characters are \<open>B\<close> and a digit. The
  string \<open>BB8\<close> ends so and compiles: the first \<open>B\<close> selects the band production, which
  takes the second \<open>B\<close> as \<open>num\<close> and the digit as \<open>nxt\<close>, and \<open>int(num)\<close> is only
  evaluated when the closure is called.
\<close>

theorem trailing_band_counterexample:
  "(FeatureExtendedExtractor ''BB8'' :: error + real evaluator list)
     = Inr [two_digit_fun CHR ''B'' CHR ''8'']"
  by (simp add: parse_unfold char_preds)

text \<open>
  C8, amended. When the band production is entered with a single character \<open>d\<close> left in the
  stream (followed by white space at most), \<open>peek\<close> finds nothing and raises \<open>IndexError\<close>.
  So construction from the whole string \<open>B d\<close>, for example \<open>B8\<close>, raises \<open>IndexError\<close>, and
  so does construction from a formula that compiles followed by \<open>;\<close> and \<open>B d\<close>.
\<close>

theorem lone_band_term_fails:
  assumes "\<forall>c\<in>set ws. isspace c"
  shows "(parse_B (d # ws) :: error + ('a::{zero,plus,minus,inverse}) evaluator \<times> char list) = Inl IndexError
    \<and> (FeatureExtendedExtractor (CHR ''B'' # d # ws) :: error + 'a evaluator list) = Inl IndexError
    \<and> (\<forall>l fs. (FeatureExtendedExtractor l :: error + 'a evaluator list) = Inr fs \<longrightarrow>
          (FeatureExtendedExtractor (l @ CHR '';'' # CHR ''B'' # d # ws) :: error + 'a evaluator list)
            = Inl IndexError)"
proof -
  have b: "(parse_B (d # ws) :: error + 'a evaluator \<times> char list) = Inl IndexError"
    using peek_all_space [OF assms] lexer_next_all_space [OF assms]
    by (simp add: parse_B_def)
  then have t: "(parse_T (CHR ''B'' # d # ws) :: error + 'a evaluator \<times> char list) = Inl IndexError"
    by (simp add: parse_T_band)
  have "(FeatureExtendedExtractor (l @ CHR '';'' # CHR ''B'' # d # ws) :: error + 'a evaluator list)
      = Inl IndexError"
    if "(FeatureExtendedExtractor l :: error + 'a evaluator list) = Inr fs" for l fs
  proof -
    from that have "(parse_E l :: error + 'a evaluator list) = Inr fs"
      by (simp add: FeatureExtendedExtractor_def)
    from parse_E_append [OF this, of "CHR '';'' # CHR ''B'' # d # ws"] t show ?thesis
      by (simp add: FeatureExtendedExtractor_def parse_E_loop.simps [of fs] isspace_def)
  qed
  with b t show ?thesis
    by (simp add: FeatureExtendedExtractor_def parse_E_def)
qed

theorem lone_band_term_fails_witness:
  "isspace CHR '' ''
   \<and> (FeatureExtendedExtractor ''B8'' :: error + real evaluator list) = Inl IndexError
   \<and> (FeatureExtendedExtractor ''B8 '' :: error + real evaluator list) = Inl IndexError
   \<and> (FeatureExtendedExtractor ''B12'' :: error + real evaluator list)
       = Inr [two_digit_fun CHR ''1'' CHR ''2'']
   \<and> (FeatureExtendedExtractor ''B12;B8'' :: error + real evaluator list) = Inl IndexError"
proof -
  have h: "\<forall>c\<in>set '' ''. isspace c" "\<forall>c\<in>set []. isspace c"
    by (simp_all add: isspace_def)
  have c: "(FeatureExtendedExtractor ''B12'' :: error + real evaluator list)
       = Inr [two_digit_fun CHR ''1'' CHR ''2'']"
    by (simp add: parse_unfold char_preds)
  from lone_band_term_fails [OF h(2), of "CHR ''8''", where 'a = real] c
  have "(FeatureExtendedExtractor (''B12'' @ '';B8'') :: error + real evaluator list) = Inl IndexError"
    by blast
  then show ?thesis
    using h c lone_band_term_fails [OF h(1), of "CHR ''8''", where 'a = real]
      lone_band_term_fails [OF h(2), of "CHR ''8''", where 'a = real]
    by simp
qed

section \<open>C9: any two digits form a band label\<close>

text \<open>
  C9. For decimal digits \<open>d1\<close> and \<open>d2\<close> with values \<open>a\<close> and \<open>b\<close>, the term \<open>B d1 d2\<close>
  compiles, whatever follows it, to the closure that returns \<open>x[10 * a + b]\<close>: the element
  at position \<open>10 * a + b\<close> of a vector that has one, counted from 0, and \<open>IndexError\<close> on a
  shorter vector. No check restricts the pair to 10, 11 or 12: \<open>B00\<close> compiles to offset 0
  and \<open>B99\<close> to offset 99.
\<close>

theorem two_digit_band_any_digits:
  assumes "py_int d1 = Inr a" and "py_int d2 = Inr b"
  shows "(parse_T (CHR ''B'' # d1 # d2 # rest) :: error + ('a::{zero,plus,minus,inverse}) evaluator \<times> char list)
        = Inr (two_digit_fun d1 d2, rest)
    \<and> (\<forall>x :: 'a list. two_digit_fun d1 d2 x = getitem x (10 * a + b))
    \<and> (\<forall>x :: 'a list. two_digit_fun d1 d2 x =
          (if nat (10 * a + b) < length x then Inr (x ! nat (10 * a + b)) else Inl IndexError))
    \<and> (FeatureExtendedExtractor ''B00'' :: error + 'a evaluator list)
        = Inr [two_digit_fun CHR ''0'' CHR ''0'']
    \<and> (\<forall>x :: 'a list. two_digit_fun CHR ''0'' CHR ''0'' x = getitem x 0)
    \<and> (\<forall>x :: 'a list. two_digit_fun CHR ''0'' CHR ''0'' x =
          (if x = [] then Inl IndexError else Inr (hd x)))
    \<and> (FeatureExtendedExtractor ''B99'' :: error + 'a evaluator list)
        = Inr [two_digit_fun CHR ''9'' CHR ''9'']
    \<and> (\<forall>x :: 'a list. two_digit_fun CHR ''9'' CHR ''9'' x = getitem x 99)
    \<and> (\<forall>x :: 'a list. two_digit_fun CHR ''9'' CHR ''9'' x =
          (if 99 < length x then Inr (x ! 99) else Inl IndexError))"
proof -
  have "(parse_T (CHR ''B'' # d1 # d2 # rest) :: error + 'a evaluator \<times> char list)
      = Inr (two_digit_fun d1 d2, rest)"
    using py_int_digit [OF assms(1)] py_int_digit [OF assms(2)]
    by (simp add: parse_T_band parse_B_two_digits)
  moreover have g: "\<forall>x :: 'a list. two_digit_fun d1 d2 x = getitem x (10 * a + b)"
    using assms by (simp add: two_digit_fun_def)
  moreover have "\<forall>x :: 'a list. two_digit_fun d1 d2 x =
      (if nat (10 * a + b) < length x then Inr (x ! nat (10 * a + b)) else Inl IndexError)"
  proof -
    from py_int_digit [OF assms(1)] py_int_digit [OF assms(2)] have nn: "0 \<le> 10 * a + b" by simp
    show ?thesis by (simp only: g getitem_nonneg [OF nn]) simp
  qed
  moreover have "(FeatureExtendedExtractor ''B00'' :: error + 'a evaluator list)
        = Inr [two_digit_fun CHR ''0'' CHR ''0'']"
    by (simp add: parse_unfold char_preds)
  moreover have g0: "\<forall>x :: 'a list. two_digit_fun CHR ''0'' CHR ''0'' x = getitem x 0"
    by (simp add: two_digit_fun_def py_int_def)
  moreover have "\<forall>x :: 'a list. two_digit_fun CHR ''0'' CHR ''0'' x =
      (if x = [] then Inl IndexError else Inr (hd x))"
    using g0 by (simp add: getitem_nonneg hd_conv_nth)
  moreover have "(FeatureExtendedExtractor ''B99'' :: error + 'a evaluator list)
        = Inr [two_digit_fun CHR ''9'' CHR ''9'']"
    by (simp add: parse_unfold char_preds)
  moreover have g9: "\<forall>x :: 'a list. two_digit_fun CHR ''9'' CHR ''9'' x = getitem x 99"
    by (simp add: two_digit_fun_def py_int_def)
  moreover have "\<forall>x :: 'a list. two_digit_fun CHR ''9'' CHR ''9'' x =
      (if 99 < length x then Inr (x ! 99) else Inl IndexError)"
    using g9 by (simp add: getitem_nonneg)
  ultimately show ?thesis by blast
qed

theorem two_digit_band_any_digits_witness:
  "py_int CHR ''0'' = Inr 0 \<and> py_int CHR ''3'' = Inr 3
   \<and> (parse_T ''B03,B01)'' :: error + real evaluator \<times> char list)
       = Inr (two_digit_fun CHR ''0'' CHR ''3'', '',B01)'')
   \<and> two_digit_fun CHR ''0'' CHR ''3'' [10, 20, 30, 40, 50 :: real] = Inr 40
   \<and> two_digit_fun CHR ''0'' CHR ''3'' [10, 20, 30 :: real] = Inl IndexError"
proof -
  have h: "py_int CHR ''0'' = Inr 0" "py_int CHR ''3'' = Inr 3"
    by (simp_all add: py_int_def)
  from two_digit_band_any_digits [OF h, of "'',B01)''", where 'a = real]
  have "(parse_T ''B03,B01)'' :: error + real evaluator \<times> char list)
       = Inr (two_digit_fun CHR ''0'' CHR ''3'', '',B01)'')"
    and r: "\<forall>x :: real list. two_digit_fun CHR ''0'' CHR ''3'' x =
          (if nat (10 * 0 + 3) < length x then Inr (x ! nat (10 * 0 + 3)) else Inl IndexError)"
    by blast+
  then show ?thesis
    using h by (simp add: r)
qed

section \<open>C10: the label \<open>0\<close>\<close>

text \<open>
  C10. The term \<open>B0\<close>, when the next character that the lexer sees is neither a digit nor
  \<open>a\<close>/\<open>A\<close>, compiles; \<open>nr\<close> is \<open>-1\<close>, so the closure reads \<open>x[-1]\<close>, the last element of
  a vector that is not empty. The formula \<open>B0;B10\<close> compiles to that closure and the one
  reading offset 10.
\<close>

theorem band_zero_reads_last_element:
  assumes "peek rest = Inr (c, rest')" and "\<not> isdigit c" and "\<not> lower_is_a c"
  shows "(parse_T (CHR ''B'' # CHR ''0'' # rest) :: error + ('a::{zero,plus,minus,inverse}) evaluator \<times> char list)
        = Inr (one_digit_fun (- 1), rest')
    \<and> (\<forall>x :: 'a list. one_digit_fun (- 1) x = getitem x (- 1))
    \<and> (\<forall>x :: 'a list. x \<noteq> [] \<longrightarrow> one_digit_fun (- 1) x = Inr (last x))
    \<and> (FeatureExtendedExtractor ''B0;B10'' :: error + 'a evaluator list)
        = Inr [one_digit_fun (- 1), two_digit_fun CHR ''1'' CHR ''0'']"
proof -
  have "(parse_T (CHR ''B'' # CHR ''0'' # rest) :: error + 'a evaluator \<times> char list)
        = Inr (one_digit_fun (- 1), rest')"
    using assms by (simp add: parse_T_band parse_B_one_digit isspace_def py_int_def)
  moreover have "\<forall>x :: 'a list. one_digit_fun (- 1) x = getitem x (- 1)"
    by (simp add: one_digit_fun_def)
  moreover have "\<forall>x :: 'a list. x \<noteq> [] \<longrightarrow> one_digit_fun (- 1) x = Inr (last x)"
  proof (intro allI impI)
    fix x :: "'a list"
    assume "x \<noteq> []"
    then have pos: "Suc 0 \<le> length x" by (cases x) simp_all
    then have "nat (int (length x) + - 1) = length x - 1" by linarith
    with pos \<open>x \<noteq> []\<close> show "one_digit_fun (- 1) x = Inr (last x)"
      by (simp add: one_digit_fun_def getitem_def last_conv_nth)
  qed
  moreover have "(FeatureExtendedExtractor ''B0;B10'' :: error + 'a evaluator list)
        = Inr [one_digit_fun (- 1), two_digit_fun CHR ''1'' CHR ''0'']"
    by (simp add: parse_unfold char_preds)
  ultimately show ?thesis by blast
qed

theorem band_zero_reads_last_element_witness:
  "peek '';B10'' = Inr (CHR '';'', '';B10'') \<and> \<not> isdigit CHR '';'' \<and> \<not> lower_is_a CHR '';''
   \<and> (parse_T ''B0;B10'' :: error + real evaluator \<times> char list)
        = Inr (one_digit_fun (- 1), '';B10'')
   \<and> one_digit_fun (- 1) [10, 20, 30 :: real] = Inr 30"
proof -
  have h: "peek '';B10'' = Inr (CHR '';'', '';B10'')" "\<not> isdigit CHR '';''" "\<not> lower_is_a CHR '';''"
    by (simp_all add: char_preds)
  show ?thesis
    using h band_zero_reads_last_element [OF h, where 'a = real] by (simp add: getitem_def)
qed

end
